theory Spec2Isabelle
  imports Main "HOL-Library.Word"
begin

unbundle bit_operations_syntax

section \<open>Machine integers of the testbed header\<close>

text \<open>
  The header \<^verbatim>\<open>include/net/sch_testbed.h\<close> computes on the kernel's fixed-width
  unsigned types. They are modelled as words, so that addition and subtraction wrap and
  a conversion to a narrower type keeps the low bits.
\<close>

type_synonym u8 = "8 word"
type_synonym u16 = "16 word"
type_synonym u32 = "32 word"

text \<open>
  The C shifts \<^verbatim>\<open>x << n\<close> and \<^verbatim>\<open>x >> n\<close> on 32-bit operands. C leaves a shift by
  32 or more undefined; the model is meaningful for a count below 32 only, and the
  theorems about a general parameter pair assume \<open>codec_params_ok\<close> below, under which
  every count that occurs is below 32.
\<close>

definition shl32 :: "u32 \<Rightarrow> u32 \<Rightarrow> u32" where
  "shl32 x n = push_bit (unat n) x"

definition shr32 :: "u32 \<Rightarrow> u32 \<Rightarrow> u32" where
  "shr32 x n = drop_bit (unat n) x"

text \<open>
  The compiler builtin \<^verbatim>\<open>__builtin_clz\<close>: the number of zero bits above the most
  significant one bit of a 32-bit value. \<open>clz_from n w\<close> counts downwards from bit
  \<open>n - 1\<close>. (The builtin is undefined at 0; \<open>int2fl\<close> only calls it on a value of at
  least \<open>2 ^ (m_b + 1)\<close>.)
\<close>

fun clz_from :: "nat \<Rightarrow> u32 \<Rightarrow> nat" where
  "clz_from 0 w = 0"
| "clz_from (Suc n) w = (if bit w n then 0 else Suc (clz_from n w))"

definition builtin_clz :: "u32 \<Rightarrow> nat" where
  "builtin_clz w = clz_from 32 w"

section \<open>The quantization codec\<close>

text \<open>The parameter pairs of the header: drops in 5 bits, queue delay in 11 bits.\<close>

definition DROPS_M :: u32 where "DROPS_M = 2"
definition DROPS_E :: u32 where "DROPS_E = 3"
definition QDELAY_M :: u32 where "QDELAY_M = 7"
definition QDELAY_E :: u32 where "QDELAY_E = 4"

text \<open>
  \<^verbatim>\<open>fl2int(fl, m_b, e_b)\<close>: decode a float value with \<open>m_b\<close> mantissa bits and
  \<open>e_b\<close> exponent bits.
\<close>

definition fl2int :: "u32 \<Rightarrow> u32 \<Rightarrow> u32 \<Rightarrow> u32" where
  "fl2int fl0 m_b e_b =
     (let m_max = shl32 1 m_b;
          fl = fl0 AND (shl32 m_max e_b - 1)
      in if fl < shl32 m_max 1 then fl
         else shl32 ((fl AND (m_max - 1)) + m_max) (shr32 fl m_b - 1))"

text \<open>
  The constant \<^verbatim>\<open>max_fl\<close> that \<^verbatim>\<open>int2fl\<close> computes from its parameters: the largest
  value with a codeword of its own.
\<close>

definition max_fl :: "u32 \<Rightarrow> u32 \<Rightarrow> u32" where
  "max_fl m_b e_b =
     (let max_e = shl32 1 e_b - 1;
          max_m = shl32 1 m_b - 1
      in shl32 (shl32 max_m 1 + 1) (max_e - 1))"

text \<open>
  \<^verbatim>\<open>int2fl(val, m_b, e_b, &r)\<close>: encode, rounding down. The result is the pair of the
  returned codeword and the remainder stored through \<^verbatim>\<open>r\<close>.
\<close>

definition int2fl :: "u32 \<Rightarrow> u32 \<Rightarrow> u32 \<Rightarrow> u32 \<times> u32" where
  "int2fl val m_b e_b =
     (if val < shl32 1 (m_b + 1) then (val, 0)
      else if val \<ge> max_fl m_b e_b then (shl32 1 (m_b + e_b) - 1, val - max_fl m_b e_b)
      else
        let len = 32 - word_of_nat (builtin_clz val) - 1;
            exponent = len - m_b;
            mantissa = shr32 val exponent AND (shl32 1 m_b - 1);
            r = val AND (shl32 1 exponent - 1)
        in (shl32 (exponent + 1) m_b OR mantissa, r))"

text \<open>
  The parameter pairs for which the 32-bit arithmetic of \<^verbatim>\<open>int2fl\<close> is defined and
  \<^verbatim>\<open>max_fl\<close> is not truncated: at least one exponent bit (the shift count
  \<^verbatim>\<open>max_e - 1\<close> does not wrap), at most 30 mantissa bits (the shift count
  \<^verbatim>\<open>m_b + 1\<close> is below 32), and \<open>m_b + 2 ^ e_b \<le> 33\<close>, so that
  \<open>(2 ^ (m_b + 1) - 1) * 2 ^ (2 ^ e_b - 2) < 2 ^ 32\<close>. The pairs (2,3) and (7,4) of
  the header are among them.
\<close>

definition codec_params_ok :: "u32 \<Rightarrow> u32 \<Rightarrow> bool" where
  "codec_params_ok m_b e_b =
     (1 \<le> unat e_b \<and> unat m_b \<le> 30 \<and> unat m_b + 2 ^ unat e_b \<le> 33)"

section \<open>The drop accumulator\<close>

record testbed_metrics =
  drops_ecn :: u16
  drops_nonecn :: u16

definition testbed_metrics_init :: "testbed_metrics \<Rightarrow> testbed_metrics" where
  "testbed_metrics_init testbed = testbed\<lparr>drops_ecn := 0, drops_nonecn := 0\<rparr>"

text \<open>
  Modelled from the spec: the constants \<^verbatim>\<open>INET_ECN_NOT_ECT\<close> and \<^verbatim>\<open>INET_ECN_MASK\<close>
  come from \<^verbatim>\<open><net/inet_ecn.h>\<close>, which is not part of the sources. The ECN codepoint
  is the low two bits of the traffic-class byte, and Not-ECT is the codepoint with no
  ECN bit set.
\<close>

definition INET_ECN_NOT_ECT :: u8 where "INET_ECN_NOT_ECT = 0"
definition INET_ECN_MASK :: u8 where "INET_ECN_MASK = 3"

text \<open>\<^verbatim>\<open>testbed_inc_drop_count\<close>: the \<^verbatim>\<open>++\<close> on a \<^verbatim>\<open>u16\<close> field wraps.\<close>

definition testbed_inc_drop_count :: "testbed_metrics \<Rightarrow> u8 \<Rightarrow> testbed_metrics" where
  "testbed_inc_drop_count testbed ect =
     (if ect = INET_ECN_NOT_ECT
      then testbed\<lparr>drops_nonecn := drops_nonecn testbed + 1\<rparr>
      else testbed\<lparr>drops_ecn := drops_ecn testbed + 1\<rparr>)"

text \<open>
  \<^verbatim>\<open>testbed_write_drops\<close>: the counter is widened to \<^verbatim>\<open>u32\<close> for \<^verbatim>\<open>int2fl\<close>, and
  the remainder is cast back to \<^verbatim>\<open>__u16\<close>. The result is the returned codeword and
  the updated accumulator.
\<close>

definition testbed_write_drops :: "testbed_metrics \<Rightarrow> u8 \<Rightarrow> u32 \<times> testbed_metrics" where
  "testbed_write_drops testbed tos_byte =
     (if tos_byte AND INET_ECN_MASK \<noteq> 0
      then (let (drops, remainder) = int2fl (ucast (drops_ecn testbed)) DROPS_M DROPS_E
            in (drops, testbed\<lparr>drops_ecn := ucast remainder\<rparr>))
      else (let (drops, remainder) = int2fl (ucast (drops_nonecn testbed)) DROPS_M DROPS_E
            in (drops, testbed\<lparr>drops_nonecn := ucast remainder\<rparr>)))"

section \<open>The IPv4 header\<close>

text \<open>
  Modelled from the spec: the byte-order types and conversions (\<^verbatim>\<open>__be16\<close>,
  \<^verbatim>\<open>ntohs\<close>, \<^verbatim>\<open>htons\<close>) are the kernel's and not part of the sources; the header
  fields are read and written as big-endian 16-bit integers.
  A 16-bit or 32-bit field in network byte order is kept as its bytes in memory order,
  most significant first, so that the model does not depend on the byte order of the
  host: \<^verbatim>\<open>ntohs\<close> reads the two bytes as a number and \<^verbatim>\<open>htons\<close> stores a number as
  two bytes.
\<close>

datatype be16 = Be16 u8 u8
datatype be32 = Be32 u8 u8 u8 u8

fun ntohs :: "be16 \<Rightarrow> u16" where
  "ntohs (Be16 b0 b1) = push_bit 8 (ucast b0) OR ucast b1"

definition htons :: "u16 \<Rightarrow> be16" where
  "htons v = Be16 (ucast (drop_bit 8 v)) (ucast v)"

text \<open>
  Modelled from the spec: \<^verbatim>\<open>struct iphdr\<close> is declared in the kernel's
  \<^verbatim>\<open><linux/ip.h>\<close>, which is not part of the sources. The fields are those of the IPv4
  wire format, in wire order; the identification field is \<open>ip_id\<close> (\<^verbatim>\<open>iph->id\<close>), and
  \<open>options\<close> are the bytes of the header that follow the fixed 20 bytes.
\<close>

record iphdr =
  version :: "4 word"
  ihl :: "4 word"
  tos :: u8
  tot_len :: be16
  ip_id :: be16
  frag_off :: be16
  ttl :: u8
  protocol :: u8
  check :: be16
  saddr :: be32
  daddr :: be32
  options :: "u8 list"

fun be16_bytes :: "be16 \<Rightarrow> u8 list" where
  "be16_bytes (Be16 b0 b1) = [b0, b1]"

fun be32_bytes :: "be32 \<Rightarrow> u8 list" where
  "be32_bytes (Be32 b0 b1 b2 b3) = [b0, b1, b2, b3]"

text \<open>The bytes of the whole header as they are on the wire.\<close>

definition iphdr_bytes :: "iphdr \<Rightarrow> u8 list" where
  "iphdr_bytes h =
     [push_bit 4 (ucast (version h)) OR ucast (ihl h), tos h]
     @ be16_bytes (tot_len h) @ be16_bytes (ip_id h) @ be16_bytes (frag_off h)
     @ [ttl h, protocol h] @ be16_bytes (check h)
     @ be32_bytes (saddr h) @ be32_bytes (daddr h) @ options h"

text \<open>
  A well-formed IPv4 header: version 4, a header length of at least five 32-bit words,
  and as many option bytes as the header length announces.
\<close>

definition iphdr_wf :: "iphdr \<Rightarrow> bool" where
  "iphdr_wf h =
     (version h = 4 \<and> 5 \<le> unat (ihl h) \<and> length (options h) = 4 * (unat (ihl h) - 5))"

text \<open>
  Modelled from the spec: the full checksum computation (\<^verbatim>\<open>ip_fast_csum\<close> with
  \<^verbatim>\<open>csum_fold\<close>) is not part of the sources. It is the Internet checksum: the header is
  read as big-endian 16-bit words, the words are summed in 32 bits, the sum is folded
  twice to 16 bits by adding the carries back in, and the result is complemented. A
  header is checksum-valid when the computation over the whole header, checksum field
  included, yields zero.
\<close>

fun be16_words :: "u8 list \<Rightarrow> u16 list" where
  "be16_words (b0 # b1 # bs) = ntohs (Be16 b0 b1) # be16_words bs"
| "be16_words [b0] = [ntohs (Be16 b0 0)]"
| "be16_words [] = []"

fun csum_partial :: "u16 list \<Rightarrow> u32 \<Rightarrow> u32" where
  "csum_partial [] acc = acc"
| "csum_partial (w # ws) acc = csum_partial ws (acc + ucast w)"

definition csum_fold :: "u32 \<Rightarrow> u16" where
  "csum_fold csum =
     (let sum1 = (csum AND 0xffff) + drop_bit 16 csum;
          sum2 = (sum1 AND 0xffff) + drop_bit 16 sum1
      in ucast (NOT sum2))"

definition ip_fast_csum :: "iphdr \<Rightarrow> u16" where
  "ip_fast_csum h = csum_fold (csum_partial (be16_words (iphdr_bytes h)) 0)"

section \<open>Embedding the metrics in a packet\<close>

text \<open>
  Modelled from the spec: \<^verbatim>\<open>struct sk_buff\<close> and its accessors \<^verbatim>\<open>skb_protocol\<close>,
  \<^verbatim>\<open>skb_network_offset\<close>, \<^verbatim>\<open>ip_hdr\<close>, \<^verbatim>\<open>pskb_may_pull\<close> and
  \<^verbatim>\<open>skb_try_make_writable\<close> belong to the kernel's packet representation, which is
  not part of the sources. The model keeps what the header reads of a packet: its
  protocol, the offset of the network header, the IPv4 header found there, and the
  outcome of asking for a number of bytes to be present (\<open>pull_ok\<close>) and to be writable
  (\<open>writable_err\<close>, 0 on success). The two requests may move the packet's data but keep
  its contents, so they leave the model's packet as it is.
\<close>

record sk_buff =
  skb_protocol :: be16
  skb_network_offset :: int
  ip_hdr :: iphdr
  pull_ok :: "int \<Rightarrow> bool"
  writable_err :: "int \<Rightarrow> int"

definition pskb_may_pull :: "sk_buff \<Rightarrow> int \<Rightarrow> bool" where
  "pskb_may_pull skb wlen = pull_ok skb wlen"

definition skb_try_make_writable :: "sk_buff \<Rightarrow> int \<Rightarrow> int" where
  "skb_try_make_writable skb wlen = writable_err skb wlen"

text \<open>
  Modelled from the spec: the protocol numbers of IPv4 and IPv6 and the sizes of the two
  fixed headers, which the kernel's headers define.
\<close>

definition ETH_P_IP :: u16 where "ETH_P_IP = 0x0800"
definition ETH_P_IPV6 :: u16 where "ETH_P_IPV6 = 0x86DD"

definition sizeof_iphdr :: int where "sizeof_iphdr = 20"
definition sizeof_ipv6hdr :: int where "sizeof_ipv6hdr = 40"

text \<open>
  \<^verbatim>\<open>testbed_add_metrics_ipv4\<close>. \<^verbatim>\<open>check\<close> is a \<^verbatim>\<open>u32\<close>; \<^verbatim>\<open>drops\<close> and \<^verbatim>\<open>id\<close> are
  \<^verbatim>\<open>u16\<close>, so the codeword and the combined field are truncated to 16 bits, and
  \<^verbatim>\<open>htons(check)\<close> keeps the low 16 bits of \<^verbatim>\<open>check\<close>.
\<close>

definition testbed_add_metrics_ipv4 ::
  "sk_buff \<Rightarrow> testbed_metrics \<Rightarrow> u16 \<Rightarrow> sk_buff \<times> testbed_metrics" where
  "testbed_add_metrics_ipv4 skb testbed qdelay =
     (let iph = ip_hdr skb;
          check0 = (ucast (ntohs (check iph)) :: u32) + ucast (ntohs (ip_id iph));
          check1 = (if drop_bit 16 (check0 + 1) \<noteq> 0 then (check0 + 1) AND 0xffff else check0);
          (drops32, testbed') = testbed_write_drops testbed (tos iph);
          drops = (ucast drops32 :: u16);
          new_id = (ucast ((ucast qdelay :: u32) OR push_bit 11 (ucast drops)) :: u16);
          check2 = check1 - ucast new_id;
          check3 = check2 + drop_bit 16 check2
      in (skb\<lparr>ip_hdr := iph\<lparr>ip_id := htons new_id, check := htons (ucast check3)\<rparr>\<rparr>,
          testbed'))"

text \<open>
  \<^verbatim>\<open>testbed_add_metrics\<close>: the dispatch on the packet's protocol. A \<^verbatim>\<open>break\<close> leaves
  the packet and the accumulator as they are.
\<close>

definition testbed_add_metrics ::
  "sk_buff \<Rightarrow> testbed_metrics \<Rightarrow> u32 \<Rightarrow> sk_buff \<times> testbed_metrics" where
  "testbed_add_metrics skb testbed qdelay_us =
     (let wlen = skb_network_offset skb;
          (qdelay32, qdelay_remainder) = int2fl qdelay_us QDELAY_M QDELAY_E;
          qdelay = (ucast qdelay32 :: u16)
      in if skb_protocol skb = htons ETH_P_IP then
           (let wlen = wlen + sizeof_iphdr
            in if \<not> pskb_may_pull skb wlen \<or> skb_try_make_writable skb wlen \<noteq> 0
               then (skb, testbed)
               else testbed_add_metrics_ipv4 skb testbed qdelay)
         else if skb_protocol skb = htons ETH_P_IPV6 then
           (let wlen = wlen + sizeof_ipv6hdr
            in if \<not> pskb_may_pull skb wlen \<or> skb_try_make_writable skb wlen \<noteq> 0
               then (skb, testbed)
               else (skb, testbed))
         else (skb, testbed))"

section \<open>A sample packet\<close>

text \<open>
  A TCP/IPv4 header without options and with a valid checksum, and packets that carry
  it, for evaluating the functions on concrete inputs.
\<close>

definition sample_iphdr :: iphdr where
  "sample_iphdr =
     \<lparr>version = 4, ihl = 5, tos = 1, tot_len = Be16 0 40, ip_id = Be16 0x12 0x34,
      frag_off = Be16 0x40 0, ttl = 64, protocol = 6, check = Be16 20 153,
      saddr = Be32 10 0 0 1, daddr = Be32 10 0 0 2, options = []\<rparr>"

definition sample_skb :: "u16 \<Rightarrow> bool \<Rightarrow> int \<Rightarrow> sk_buff" where
  "sample_skb proto pull err =
     \<lparr>skb_protocol = htons proto, skb_network_offset = 14, ip_hdr = sample_iphdr,
      pull_ok = (\<lambda>wlen. pull), writable_err = (\<lambda>wlen. err)\<rparr>"

section \<open>Properties\<close>

subsection \<open>Counting leading zeros\<close>

lemma clz_from_spec:
  "\<exists>k<n. bit w k \<Longrightarrow>
   clz_from n w < n \<and> bit w (n - 1 - clz_from n w) \<and>
   (\<forall>k. n - 1 - clz_from n w < k \<and> k < n \<longrightarrow> \<not> bit w k)"
proof (induction n)
  case 0
  then show ?case by simp
next
  case (Suc n)
  show ?case
  proof (cases "bit w n")
    case True
    then show ?thesis by auto
  next
    case False
    with Suc.prems have "\<exists>k<n. bit w k"
      by (metis less_Suc_eq)
    from Suc.IH [OF this] have c: "clz_from n w < n" and b: "bit w (n - 1 - clz_from n w)"
      and z: "\<And>k. n - 1 - clz_from n w < k \<Longrightarrow> k < n \<Longrightarrow> \<not> bit w k" by auto
    have e: "Suc n - 1 - clz_from (Suc n) w = n - 1 - clz_from n w"
      using False c by simp
    show ?thesis unfolding e using False c b z
      by (auto simp: less_Suc_eq)
  qed
qed

lemma bit_nat_imp_le: "bit (n::nat) k \<Longrightarrow> 2 ^ k \<le> n"
proof (rule ccontr)
  assume b: "bit n k" and "\<not> 2 ^ k \<le> n"
  then have "n < 2 ^ k" by simp
  then have "take_bit k n = n" by (rule take_bit_nat_eq_self)
  moreover have "\<not> bit (take_bit k n) k" by (simp add: bit_take_bit_iff)
  ultimately show False using b by simp
qed

lemma clz_bounds:
  assumes "w \<noteq> 0"
  shows "builtin_clz w \<le> 31" 
    and "2 ^ (31 - builtin_clz w) \<le> unat w" 
    and "unat w < 2 ^ (32 - builtin_clz w)"
proof -
  have "\<exists>k<32. bit w k"
  proof (rule ccontr)
    assume "\<not> (\<exists>k<32. bit w k)"
    then have "w = 0" by (intro bit_word_eqI) simp
    with assms show False by simp
  qed
  from clz_from_spec [OF this] have c: "builtin_clz w < 32" and b: "bit w (31 - builtin_clz w)"
      and z: "\<And>k. 31 - builtin_clz w < k \<Longrightarrow> k < 32 \<Longrightarrow> \<not> bit w k" 
    by (auto simp: builtin_clz_def)
  show "builtin_clz w \<le> 31" using c by simp
  from b have "bit (unat w) (31 - builtin_clz w)" by (simp add: bit_unsigned_iff)
  then show "2 ^ (31 - builtin_clz w) \<le> unat w" by (rule bit_nat_imp_le)
  have "take_bit (32 - builtin_clz w) w = w"
  proof (rule bit_word_eqI)
    fix n assume "n < LENGTH(32)"
    then have n: "n < 32" by simp
    show "bit (take_bit (32 - builtin_clz w) w) n = bit w n"
    proof (cases "n < 32 - builtin_clz w")
      case True then show ?thesis by (simp add: bit_take_bit_iff)
    next
      case False
      then have "31 - builtin_clz w < n" using c by simp
      from z [OF this n] False show ?thesis by (simp add: bit_take_bit_iff)
    qed
  qed
  then show "unat w < 2 ^ (32 - builtin_clz w)"
    by (metis take_bit_nat_less_exp unsigned_take_bit_eq)
qed

lemma shl32_1: "shl32 1 n = 2 ^ unat n"
  by (simp add: shl32_def)

lemma params_okD:
  assumes "codec_params_ok m e"
  shows "unat m \<le> 30" "1 \<le> unat e" "unat e \<le> 5" "unat m + unat e \<le> 31"
    "unat (m + 1) = unat m + 1" "unat (m + e) = unat m + unat e"
    "unat m + 2 ^ unat e \<le> 33"
proof -
  from assms have e1: "1 \<le> unat e" and s: "unat m + 2 ^ unat e \<le> 33" and m: "unat m \<le> 30"
    by (simp_all add: codec_params_ok_def)
  show "unat m \<le> 30" "1 \<le> unat e" "unat m + 2 ^ unat e \<le> 33" by fact+
  have "(2::nat) ^ unat e \<le> 33" using s by simp
  have "\<not> 6 \<le> unat e"
  proof
    assume "6 \<le> unat e"
    then have "(2::nat) ^ 6 \<le> 2 ^ unat e" by (rule power_increasing) simp
    with \<open>(2::nat) ^ unat e \<le> 33\<close> show False by simp
  qed
  then show e5: "unat e \<le> 5" by simp
  have "unat e < 2 ^ unat e" by simp
  show me: "unat m + unat e \<le> 31"
  proof (cases "unat e = 1")
    case True with m show ?thesis by simp
  next
    case False
    with e1 obtain k where k: "unat e = Suc (Suc k)" 
      by (metis One_nat_def Suc_le_D le_antisym not_less_eq_eq)
    have "Suc k < 2 ^ Suc k" by (rule less_exp)
    then have "Suc (Suc k) + 2 \<le> 2 ^ Suc (Suc k)" by simp
    with s k show ?thesis by simp
  qed
  show "unat (m + 1) = unat m + 1" using m by (simp add: unat_add_lem [THEN iffD1])
  show "unat (m + e) = unat m + unat e" using me by (simp add: unat_add_lem [THEN iffD1])
qed

subsection \<open>Words as numbers and as bits\<close>

lemma and_low_bits: "(x::u32) AND (2 ^ n - 1) = take_bit n x"
  by (simp add: take_bit_eq_mask mask_eq_exp_minus_1)

lemma len32: "LENGTH(32) = 32"
  by simp

lemma unat_drop_bit_div: "unat (drop_bit n (w::u32)) = unat w div 2 ^ n"
proof -
  have "unat (drop_bit n w) = drop_bit n (unat w)" by (rule unat_drop_bit_eq)
  also have "\<dots> = unat w div 2 ^ n" by (rule drop_bit_eq_div)
  finally show ?thesis .
qed

lemma unat_take_bit_mod: "unat (take_bit n (w::u32)) = unat w mod 2 ^ n"
proof -
  have "unat (take_bit n w) = take_bit n (unat w)" by (rule unsigned_take_bit_eq)
  also have "\<dots> = unat w mod 2 ^ n" by (rule take_bit_eq_mod)
  finally show ?thesis .
qed

lemma unat_of_nat32: "k < 2 ^ 32 \<Longrightarrow> unat (word_of_nat k :: u32) = k"
  by (simp add: unat_of_nat)

lemma unat_2p: "n < 32 \<Longrightarrow> unat ((2::u32) ^ n) = 2 ^ n"
proof -
  assume "n < 32"
  then have "(2::nat) ^ n < 2 ^ 32" by (intro power_strict_increasing) simp_all
  then have "unat (word_of_nat (2 ^ n) :: u32) = 2 ^ n" by (rule unat_of_nat32)
  then show ?thesis by simp
qed

lemma less_2p_iff: "n < 32 \<Longrightarrow> (v < (2::u32) ^ n) = (unat v < 2 ^ n)"
  by (simp add: word_less_nat_alt unat_2p)

lemma take_bit_self_word: "unat (v::u32) < 2 ^ n \<Longrightarrow> take_bit n v = v"
  by (metis take_bit_nat_eq_self unsigned_take_bit_eq word_unat_eq_iff)

lemma bit_small: "unat (a::'a::len word) < 2 ^ k \<Longrightarrow> bit a n \<Longrightarrow> n < k"
proof (rule ccontr)
  assume a: "unat a < 2 ^ k" and b: "bit a n" and "\<not> n < k"
  then have "k \<le> n" by simp
  from b have "bit (unat a) n" by (simp add: bit_unsigned_iff)
  then have "2 ^ n \<le> unat a" by (rule bit_nat_imp_le)
  moreover have "(2::nat) ^ k \<le> 2 ^ n" using \<open>k \<le> n\<close> by (rule power_increasing) simp
  ultimately show False using a by simp
qed

lemma unat_mask32: "n < 32 \<Longrightarrow> unat (mask n :: u32) = 2 ^ n - 1"
proof -
  assume n: "n < 32"
  have "(1::u32) \<le> 2 ^ n" using n by (simp add: word_le_nat_alt unat_2p)
  then have "unat ((2::u32) ^ n - 1) = unat ((2::u32) ^ n) - unat (1::u32)" by (rule unat_sub)
  then show ?thesis using n by (simp add: mask_eq_exp_minus_1 unat_2p)
qed

lemma max_fl_eq:
  assumes ok: "codec_params_ok m e"
  shows "max_fl m e = push_bit (2 ^ unat e - 2) (mask (unat m + 1))"
proof -
  note p = params_okD [OF ok]
  have "(2::nat) ^ unat e \<le> 2 ^ 5" using p(3) by (intro power_increasing) simp_all
  then have e32: "(2::nat) ^ unat e \<le> 32" by simp
  have "2 ^ 1 \<le> (2::nat) ^ unat e" using p(2) by (intro power_increasing) simp_all
  then have e2: "2 \<le> (2::nat) ^ unat e" by simp
  have "(2::u32) ^ unat e - 2 = word_of_nat (2 ^ unat e - 2)"
    using e2 by (simp add: of_nat_diff)
  moreover have "unat (word_of_nat (2 ^ unat e - 2) :: u32) = 2 ^ unat e - 2"
    using e32 by (intro unat_of_nat32) simp
  ultimately have c: "unat ((2::u32) ^ unat e - 2) = 2 ^ unat e - 2" by simp
  have "push_bit 1 ((2::u32) ^ unat m - 1) + 1 = mask (unat m + 1)"
    by (simp add: mask_eq_exp_minus_1 push_bit_eq_mult algebra_simps)
  then show ?thesis
    by (simp add: max_fl_def shl32_1 shl32_def c Let_def)
qed


lemma unat_max_fl:
  assumes ok: "codec_params_ok m e"
  shows "unat (max_fl m e) = (2 ^ (unat m + 1) - 1) * 2 ^ (2 ^ unat e - 2)"
proof -
  note p = params_okD [OF ok]
  have "2 ^ 1 \<le> (2::nat) ^ unat e" using p(2) by (intro power_increasing) simp_all
  then have e2: "2 \<le> (2::nat) ^ unat e" by simp
  define k :: nat where "k = 2 ^ unat e - 2"
  define j where "j = unat m + 1"
  have jk: "j + k \<le> 32" and j: "j < 32" using p(7) p(1) e2 by (simp_all add: k_def j_def)
  have "(2 ^ j - 1) * 2 ^ k < (2::nat) ^ j * 2 ^ k" by simp
  also have "\<dots> = 2 ^ (j + k)" by (simp add: power_add)
  also have "\<dots> \<le> 2 ^ 32" using jk by (intro power_increasing) simp_all
  finally have lt: "(2 ^ j - 1) * 2 ^ k < (2::nat) ^ 32" .
  have um: "unat (mask j :: u32) = 2 ^ j - 1"
    using j by (rule unat_mask32)
  have "unat (push_bit k (mask j :: u32)) = take_bit 32 (push_bit k (unat (mask j :: u32)))"
    by (simp only: unsigned_push_bit_eq len32)
  also have "\<dots> = take_bit 32 ((2 ^ j - 1) * 2 ^ k)"
    by (simp only: um push_bit_eq_mult)
  also have "\<dots> = (2 ^ j - 1) * 2 ^ k"
    using lt by (intro take_bit_nat_eq_self) simp
  finally show ?thesis unfolding max_fl_eq [OF ok] k_def j_def .
qed

lemma fl2int_alt:
  "fl2int fl m e =
     (if take_bit (unat m + unat e) fl < 2 ^ (unat m + 1) then take_bit (unat m + unat e) fl
      else push_bit (unat (drop_bit (unat m) (take_bit (unat m + unat e) fl) - 1))
             (take_bit (unat m) (take_bit (unat m + unat e) fl) + 2 ^ unat m))"
proof -
  have s1: "shl32 (2 ^ unat m) e = 2 ^ (unat m + unat e)"
    by (simp add: shl32_def push_bit_eq_mult power_add)
  have s2: "shl32 (2 ^ unat m) 1 = 2 ^ (unat m + 1)"
    by (simp add: shl32_def push_bit_eq_mult)
  show ?thesis
    unfolding fl2int_def Let_def shl32_1 s1 s2 and_low_bits
    unfolding shl32_def shr32_def ..
qed

lemma int2fl_alt:
  "int2fl v m e =
     (if v < 2 ^ unat (m + 1) then (v, 0)
      else if max_fl m e \<le> v then (mask (unat (m + e)), v - max_fl m e)
      else (push_bit (unat m) (32 - word_of_nat (builtin_clz v) - 1 - m + 1)
              OR take_bit (unat m) (drop_bit (unat (32 - word_of_nat (builtin_clz v) - 1 - m)) v),
            take_bit (unat (32 - word_of_nat (builtin_clz v) - 1 - m)) v))"
  unfolding int2fl_def Let_def shl32_1 and_low_bits
  unfolding shl32_def shr32_def mask_eq_exp_minus_1 ..

lemma fl2int_direct:
  assumes ok: "codec_params_ok m e" and v: "unat v < 2 ^ (unat m + 1)"
  shows "fl2int v m e = v"
proof -
  note p = params_okD [OF ok]
  have "(2::nat) ^ (unat m + 1) \<le> 2 ^ (unat m + unat e)"
    using p(2) by (intro power_increasing) simp_all
  with v have "unat v < 2 ^ (unat m + unat e)" by simp
  then have t: "take_bit (unat m + unat e) v = v" by (rule take_bit_self_word)
  have "unat m + 1 < 32" using p(1) by simp
  from less_2p_iff [OF this, of v] v have lt: "v < 2 ^ (unat m + 1)" by blast
  show ?thesis
    unfolding fl2int_alt t using lt by (simp only: if_True)
qed

lemma nat_top_bit: "2 ^ M \<le> (D::nat) \<Longrightarrow> D < 2 ^ (M + 1) \<Longrightarrow> D mod 2 ^ M + 2 ^ M = D"
proof -
  assume a: "2 ^ M \<le> D" and b: "D < 2 ^ (M + 1)"
  from a have "D mod 2 ^ M = (D - 2 ^ M) mod 2 ^ M" by (rule le_mod_geq)
  also have "\<dots> = D - 2 ^ M" using b by (intro mod_less) simp
  finally show ?thesis using a by simp
qed

lemma codeword_parts:
  fixes v a :: u32
  assumes ME: "M + E \<le> 31" and X1: "1 \<le> X" and XE: "X + 1 < 2 ^ E"
    and lo: "2 ^ (X + M) \<le> unat v" and hi: "unat v < 2 ^ (X + M + 1)"
    and a: "unat a = X + 1"
  defines "cw \<equiv> push_bit M a OR take_bit M (drop_bit X v)"
  shows "take_bit (M + E) cw = cw"
    and "\<not> cw < 2 ^ (M + 1)"
    and "drop_bit M cw = a"
    and "take_bit M cw + 2 ^ M = drop_bit X v"
proof -
  have aE: "unat a < 2 ^ E" using a XE by simp
  have "E \<noteq> 0" using XE by (auto intro: ccontr)
  with ME have M31: "M + 1 < 32" by simp
  show t: "take_bit (M + E) cw = cw"
  proof (rule bit_word_eqI)
    fix n assume "n < LENGTH(32)"
    show "bit (take_bit (M + E) cw) n = bit cw n"
      using bit_small [OF aE, of "n - M"]
      by (auto simp: cw_def bit_take_bit_iff bit_or_iff bit_push_bit_iff)
  qed
  show d: "drop_bit M cw = a"
  proof (rule bit_word_eqI)
    fix n assume "n < LENGTH(32)"
    show "bit (drop_bit M cw) n = bit a n"
      using bit_small [OF aE, of n] ME
      by (auto simp: cw_def bit_drop_bit_eq bit_take_bit_iff bit_or_iff bit_push_bit_iff)
  qed
  show "\<not> cw < 2 ^ (M + 1)"
  proof
    assume "cw < 2 ^ (M + 1)"
    with M31 have "unat cw < 2 ^ (M + 1)" using less_2p_iff [of "M + 1" cw] by blast
    then have "unat cw < 2 * 2 ^ M" by simp
    then have "unat cw div 2 ^ M < 2" by (rule less_mult_imp_div_less)
    moreover have "unat (drop_bit M cw) = unat cw div 2 ^ M"
      by (rule unat_drop_bit_div)
    ultimately show False using d a X1 by simp
  qed
  have tm: "take_bit M cw = take_bit M (drop_bit X v)"
    by (rule bit_word_eqI)
       (auto simp: cw_def bit_take_bit_iff bit_or_iff bit_push_bit_iff)
  define D where "D = unat (drop_bit X v)"
  have D: "D = unat v div 2 ^ X" unfolding D_def by (rule unat_drop_bit_div)
  have e1: "(2::nat) ^ (X + M) = 2 ^ M * 2 ^ X" by (simp add: power_add)
  have e2: "(2::nat) ^ (X + M + 1) = 2 ^ (M + 1) * 2 ^ X" by (simp add: power_add)
  have "2 ^ M * 2 ^ X \<le> unat v" using lo unfolding e1 .
  then have "2 ^ M * 2 ^ X div 2 ^ X \<le> unat v div 2 ^ X" by (rule div_le_mono)
  then have Dlo: "2 ^ M \<le> D" by (simp add: D)
  have "unat v < 2 ^ (M + 1) * 2 ^ X" using hi unfolding e2 .
  then have Dhi: "D < 2 ^ (M + 1)" unfolding D by (rule less_mult_imp_div_less)
  have DD: "D mod 2 ^ M + 2 ^ M = D" using Dlo Dhi by (rule nat_top_bit)
  have "(2::nat) ^ (M + 1) \<le> 2 ^ 32" using M31 by (intro power_increasing) simp_all
  with Dhi have D32: "D < 2 ^ 32" by simp
  have um: "unat (take_bit M (drop_bit X v)) = D mod 2 ^ M"
    unfolding D_def by (rule unat_take_bit_mod)
  have u2: "unat ((2::u32) ^ M) = 2 ^ M" using M31 by (intro unat_2p) simp
  have "unat (take_bit M (drop_bit X v)) + unat ((2::u32) ^ M) < 2 ^ LENGTH(32)"
    unfolding um u2 DD using D32 by simp
  then have "unat (take_bit M (drop_bit X v) + 2 ^ M)
      = unat (take_bit M (drop_bit X v)) + unat ((2::u32) ^ M)"
    by (rule unat_add_lem [THEN iffD1])
  then have "unat (take_bit M (drop_bit X v) + 2 ^ M) = D"
    unfolding um u2 DD .
  then show "take_bit M cw + 2 ^ M = drop_bit X v"
    unfolding tm D_def by (simp only: word_unat_eq_iff)
qed


lemma fl2int_max:
  assumes ok: "codec_params_ok m e"
  shows "fl2int (mask (unat m + unat e)) m e = max_fl m e"
proof -
  note p = params_okD [OF ok]
  define M where "M = unat m"
  define E where "E = unat e"
  have t: "take_bit (M + E) (mask (M + E) :: u32) = mask (M + E)"
    by (rule bit_word_eqI) (simp add: bit_take_bit_iff bit_mask_iff)
  have ME: "M + E < 32" and M1: "M + 1 < 32" using p(4) p(1) by (simp_all add: M_def E_def)
  have um: "unat (mask (M + E) :: u32) = 2 ^ (M + E) - 1" using ME by (rule unat_mask32)
  show ?thesis
  proof (cases "E = 1")
    case True
    have "unat (mask (M + 1) :: u32) < 2 ^ (M + 1)" using M1 by (simp add: unat_mask32)
    with less_2p_iff [OF M1] have "(mask (M + 1) :: u32) < 2 ^ (M + 1)" by blast
    then have "fl2int (mask (M + 1)) m e = mask (M + 1)"
      unfolding fl2int_alt using True t by (simp only: M_def [symmetric] E_def [symmetric] if_True)
    moreover have "max_fl m e = mask (M + 1)"
      unfolding max_fl_eq [OF ok] using True by (simp add: M_def [symmetric] E_def [symmetric])
    ultimately show ?thesis using True by (simp only: M_def [symmetric] E_def [symmetric])
  next
    case False
    with p(2) have E2: "2 \<le> E" by (simp add: E_def)
    have "(2::nat) ^ (M + 1) < 2 ^ (M + E)" using E2 by (intro power_strict_increasing) simp_all
    then have "\<not> unat (mask (M + E) :: u32) < 2 ^ (M + 1)" unfolding um by simp
    with less_2p_iff [OF M1] have nlt: "\<not> (mask (M + E) :: u32) < 2 ^ (M + 1)" by blast
    have d: "drop_bit M (mask (M + E) :: u32) = mask E"
      using ME by (intro bit_word_eqI) (auto simp: bit_drop_bit_eq bit_mask_iff)
    have tm: "take_bit M (mask (M + E) :: u32) = mask M"
      by (rule bit_word_eqI) (auto simp: bit_take_bit_iff bit_mask_iff)
    have "(2::nat) ^ E \<le> 2 ^ 5" using p(3) by (intro power_increasing) (simp_all add: E_def)
    then have e32: "(2::nat) ^ E \<le> 32" by simp
    have "2 ^ 1 \<le> (2::nat) ^ E" using p(2) by (intro power_increasing) (simp_all add: E_def)
    then have e2: "2 \<le> (2::nat) ^ E" by simp
    have "(mask E :: u32) - 1 = word_of_nat (2 ^ E - 2)"
      using e2 by (simp add: mask_eq_exp_minus_1 of_nat_diff)
    moreover have "unat (word_of_nat (2 ^ E - 2) :: u32) = 2 ^ E - 2"
      using e32 by (intro unat_of_nat32) simp
    ultimately have c: "unat ((mask E :: u32) - 1) = 2 ^ E - 2" by simp
    have s: "(mask M :: u32) + 2 ^ M = mask (M + 1)"
      by (simp add: mask_eq_exp_minus_1)
    have "fl2int (mask (M + E)) m e = push_bit (2 ^ E - 2) (mask (M + 1))"
      unfolding fl2int_alt M_def [symmetric] E_def [symmetric] t d tm c s
      using nlt by (simp only: if_False)
    then show ?thesis
      unfolding max_fl_eq [OF ok] M_def [symmetric] E_def [symmetric] .
  qed
qed

lemma take_bit_word_le: "take_bit n (v::u32) \<le> v"
  by (simp add: word_le_nat_alt unat_take_bit_mod)

lemma int2fl_decode:
  assumes ok: "codec_params_ok m e"
  shows "fl2int (fst (int2fl v m e)) m e = v - snd (int2fl v m e)"
    and "snd (int2fl v m e) \<le> v"
    and "unat (fst (int2fl v m e)) < 2 ^ (unat m + unat e)"
proof -
  note p = params_okD [OF ok]
  define M where "M = unat m"
  define E where "E = unat e"
  have ME: "M + E < 32" and M1: "M + 1 < 32" and ME': "M + E \<le> 31"
    using p(4) p(1) by (simp_all add: M_def E_def)
  have E1: "1 \<le> E" using p(2) by (simp add: E_def)
  have pw: "(2::nat) ^ (M + 1) \<le> 2 ^ (M + E)" using E1 by (intro power_increasing) simp_all
  have i: "int2fl v m e =
     (if v < 2 ^ (M + 1) then (v, 0)
      else if max_fl m e \<le> v then (mask (M + E), v - max_fl m e)
      else (push_bit M (32 - word_of_nat (builtin_clz v) - 1 - m + 1)
              OR take_bit M (drop_bit (unat (32 - word_of_nat (builtin_clz v) - 1 - m)) v),
            take_bit (unat (32 - word_of_nat (builtin_clz v) - 1 - m)) v))"
    unfolding int2fl_alt p(5) p(6) M_def E_def ..
  have "fl2int (fst (int2fl v m e)) m e = v - snd (int2fl v m e)
      \<and> snd (int2fl v m e) \<le> v \<and> unat (fst (int2fl v m e)) < 2 ^ (M + E)"
  proof (cases "v < 2 ^ (M + 1)")
    case True
    then have r: "int2fl v m e = (v, 0)" unfolding i by (simp only: if_True)
    from True less_2p_iff [OF M1] have u: "unat v < 2 ^ (M + 1)" by blast
    then have "fl2int v m e = v" unfolding M_def by (rule fl2int_direct [OF ok])
    moreover have "unat v < 2 ^ (M + E)" using u pw by simp
    ultimately show ?thesis unfolding r by simp
  next
    case nA: False
    with less_2p_iff [OF M1] have vlo: "2 ^ (M + 1) \<le> unat v" by (simp add: not_less)
    show ?thesis
    proof (cases "max_fl m e \<le> v")
      case True
      with nA have r: "int2fl v m e = (mask (M + E), v - max_fl m e)"
        unfolding i by (simp only: if_True if_False)
      have "fl2int (mask (M + E)) m e = max_fl m e"
        unfolding M_def E_def by (rule fl2int_max [OF ok])
      moreover have "v - max_fl m e \<le> v" using True by (rule word_sub_le)
      moreover have "unat (mask (M + E) :: u32) < 2 ^ (M + E)" using ME by (simp add: unat_mask32)
      ultimately show ?thesis unfolding r by simp
    next
      case nB: False
      define c where "c = builtin_clz v"
      define L where "L = 31 - c"
      define X where "X = L - M"
      have "v \<noteq> 0" using vlo by auto
      from clz_bounds [OF this] have c31: "c \<le> 31" and Llo: "2 ^ L \<le> unat v"
        and Lhi': "unat v < 2 ^ (32 - c)" by (simp_all add: c_def L_def)
      have "32 - c = L + 1" using c31 by (simp add: L_def)
      with Lhi' have Lhi: "unat v < 2 ^ (L + 1)" by simp
      have "(2::nat) ^ (M + 1) < 2 ^ (L + 1)" using vlo Lhi by (rule le_less_trans)
      then have "M + 1 < L + 1" by (rule power_less_imp_less_exp [rotated]) simp
      then have M_le_L: "M + 1 \<le> L" by simp
      have "2 ^ 1 \<le> (2::nat) ^ E" using E1 by (intro power_increasing) simp_all
      then have e2: "2 \<le> (2::nat) ^ E" by simp
      have "unat v < unat (max_fl m e)" using nB by (simp add: word_le_nat_alt)
      also have "\<dots> = (2 ^ (M + 1) - 1) * 2 ^ (2 ^ E - 2)"
        unfolding M_def E_def by (rule unat_max_fl [OF ok])
      also have "\<dots> < 2 ^ (M + 1) * 2 ^ (2 ^ E - 2)" by simp
      also have "\<dots> = 2 ^ (M + 1 + (2 ^ E - 2))" by (simp add: power_add)
      finally have "(2::nat) ^ L < 2 ^ (M + 1 + (2 ^ E - 2))" using Llo by simp
      then have "L < M + 1 + (2 ^ E - 2)" by (rule power_less_imp_less_exp [rotated]) simp
      then have XE: "X + 1 < 2 ^ E" using e2 M_le_L by (simp add: X_def)
      have X1: "1 \<le> X" using M_le_L by (simp add: X_def)
      have XM: "X + M = L" using M_le_L by (simp add: X_def)
      have "(32 - word_of_nat c - 1 :: u32) = word_of_nat 31 - word_of_nat c" by simp
      also have "\<dots> = word_of_nat L" unfolding L_def using c31 by (simp only: of_nat_diff)
      finally have len: "(32 - word_of_nat c - 1 :: u32) = word_of_nat L" .
      have L31: "L \<le> 31" by (simp add: L_def)
      then have uL: "unat (word_of_nat L :: u32) = L" by (intro unat_of_nat32) simp
      have "m \<le> word_of_nat L" using M_le_L by (simp add: word_le_nat_alt uL M_def)
      then have "unat (word_of_nat L - m) = unat (word_of_nat L :: u32) - unat m" by (rule unat_sub)
      then have uX: "unat (word_of_nat L - m) = X" by (simp add: uL X_def M_def)
      have "unat (word_of_nat L - m) + unat (1::u32) < 2 ^ LENGTH(32)"
        unfolding uX using L31 by (simp add: X_def)
      then have "unat (word_of_nat L - m + 1) = unat (word_of_nat L - m) + unat (1::u32)"
        by (rule unat_add_lem [THEN iffD1])
      then have ua: "unat (word_of_nat L - m + 1) = X + 1" unfolding uX by simp
      define a :: u32 where "a = word_of_nat L - m + 1"
      have a1: "a - 1 = word_of_nat L - m" by (simp add: a_def)
      define cw where "cw = push_bit M a OR take_bit M (drop_bit X v)"
      have r: "int2fl v m e = (cw, take_bit X v)"
        unfolding i c_def [symmetric] len uX a_def [symmetric] cw_def
        using nA nB by (simp only: if_False)
      have lo: "2 ^ (X + M) \<le> unat v" and hi: "unat v < 2 ^ (X + M + 1)"
        using Llo Lhi unfolding XM by simp_all
      have ua': "unat a = X + 1" unfolding a_def by (rule ua)
      note cp = codeword_parts [OF ME' X1 XE lo hi ua', folded cw_def]
      have "fl2int cw m e = push_bit X (drop_bit X v)"
        unfolding fl2int_alt M_def [symmetric] E_def [symmetric] cp(1) cp(3) cp(4) a1 uX
        using cp(2) by (simp only: if_False)
      moreover have "push_bit X (drop_bit X v) + take_bit X v = v" by (rule bits_ident)
      ultimately have "fl2int cw m e = v - take_bit X v" by (simp add: algebra_simps)
      moreover have "take_bit X v \<le> v" by (rule take_bit_word_le)
      moreover have "unat cw < 2 ^ (M + E)"
      proof -
        have "unat (take_bit (M + E) cw) = unat cw mod 2 ^ (M + E)" by (rule unat_take_bit_mod)
        then show ?thesis unfolding cp(1) by (metis mod_less_divisor zero_less_numeral zero_less_power)
      qed
      ultimately show ?thesis unfolding r by simp
    qed
  qed
  then show "fl2int (fst (int2fl v m e)) m e = v - snd (int2fl v m e)"
    and "snd (int2fl v m e) \<le> v"
    and "unat (fst (int2fl v m e)) < 2 ^ (unat m + unat e)"
    by (simp_all add: M_def E_def)
qed

subsection \<open>The parameter pairs of the header\<close>

lemma params_ok_drops: "codec_params_ok DROPS_M DROPS_E"
  by (simp add: codec_params_ok_def DROPS_M_def DROPS_E_def)

lemma params_ok_qdelay: "codec_params_ok QDELAY_M QDELAY_E"
  by (simp add: codec_params_ok_def QDELAY_M_def QDELAY_E_def)

lemma max_fl_drops: "max_fl DROPS_M DROPS_E = 448"
  by (simp add: max_fl_def shl32_def DROPS_M_def DROPS_E_def)

lemma max_fl_qdelay: "max_fl QDELAY_M QDELAY_E = 4177920"
  by (simp add: max_fl_def shl32_def QDELAY_M_def QDELAY_E_def)

lemma max_cw_drops: "shl32 1 (DROPS_M + DROPS_E) - 1 = 31"
  by (simp add: shl32_def DROPS_M_def DROPS_E_def)

lemma max_cw_qdelay: "shl32 1 (QDELAY_M + QDELAY_E) - 1 = 2047"
  by (simp add: shl32_def QDELAY_M_def QDELAY_E_def)

lemma int2fl_sat:
  assumes ok: "codec_params_ok m e" and v: "max_fl m e \<le> v"
  shows "int2fl v m e = (shl32 1 (m + e) - 1, v - max_fl m e)"
proof (cases "v < shl32 1 (m + 1)")
  case False
  with v show ?thesis by (simp add: int2fl_def)
next
  case True
  note p = params_okD [OF ok]
  have M1: "unat m + 1 < 32" using p(1) by simp
  from True have "v < 2 ^ (unat m + 1)" by (simp only: shl32_1 p(5))
  with less_2p_iff [OF M1] have vhi: "unat v < 2 ^ (unat m + 1)" by blast
  have "2 ^ 1 \<le> (2::nat) ^ unat e" using p(2) by (intro power_increasing) simp_all
  then have e2: "2 \<le> (2::nat) ^ unat e" by simp
  have um: "unat (max_fl m e) = (2 ^ (unat m + 1) - 1) * 2 ^ (2 ^ unat e - 2)"
    by (rule unat_max_fl [OF ok])
  have mv: "unat (max_fl m e) \<le> unat v" using v by (simp add: word_le_nat_alt)
  have e1: "unat e = 1"
  proof (rule ccontr)
    assume "unat e \<noteq> 1"
    with p(2) have "2 \<le> unat e" by simp
    then have "2 ^ 2 \<le> (2::nat) ^ unat e" by (intro power_increasing) simp_all
    then have "1 \<le> 2 ^ unat e - (2::nat)" by simp
    then have "2 ^ 1 \<le> (2::nat) ^ (2 ^ unat e - 2)" by (intro power_increasing) simp_all
    then have Q2: "2 \<le> (2::nat) ^ (2 ^ unat e - 2)" by simp
    define P :: nat where "P = 2 ^ (unat m + 1)"
    define Q :: nat where "Q = 2 ^ (2 ^ unat e - 2)"
    have "2 ^ 1 \<le> (2::nat) ^ (unat m + 1)" by (intro power_increasing) simp_all
    then have P2: "2 \<le> P" by (simp add: P_def)
    have "(P - 1) * 2 \<le> (P - 1) * Q" using Q2 unfolding Q_def by (rule mult_le_mono2)
    moreover have "(P - 1) * Q \<le> unat v" using mv unfolding um P_def Q_def .
    moreover have "unat v < P" using vhi unfolding P_def .
    ultimately show False using P2 by linarith
  qed
  then have "unat (max_fl m e) = 2 ^ (unat m + 1) - 1" using um by simp
  with mv vhi have "unat v = unat (max_fl m e)" by simp
  then have veq: "v = max_fl m e" by (simp only: word_unat_eq_iff)
  have "max_fl m e = mask (unat m + 1)"
    unfolding max_fl_eq [OF ok] using e1 by simp
  moreover have "shl32 1 (m + e) - 1 = mask (unat m + 1)"
    unfolding shl32_1 p(6) using e1 by (simp add: mask_eq_exp_minus_1)
  ultimately show ?thesis using True veq by (simp add: int2fl_def)
qed

subsection \<open>Byte order, casts and the identification field\<close>

lemma ntohs_htons: "ntohs (htons v) = v"
  unfolding htons_def ntohs.simps
  by (rule bit_word_eqI) (auto simp: bit_simps)

lemma htons_inj: "htons a = htons b \<Longrightarrow> a = b"
  by (metis ntohs_htons)

lemma ucast_down_up: "unat (r :: u32) < 2 ^ 16 \<Longrightarrow> ucast (ucast r :: u16) = r"
proof -
  assume "unat r < 2 ^ 16"
  then have "take_bit 16 r = r" by (rule take_bit_self_word)
  moreover have "(ucast (ucast r :: u16) :: u32) = take_bit 16 r"
    by (rule bit_word_eqI) (auto simp: bit_simps)
  ultimately show ?thesis by simp
qed

lemma unat_u16_less: "unat (c :: u16) < 2 ^ 16"
  using unsigned_less [of c, where 'a = nat] by simp

lemma unat_ucast_16_32: "unat (ucast (c :: u16) :: u32) = unat c"
proof -
  have "unat c < (2::nat) ^ 16" by (rule unat_u16_less)
  also have "\<dots> \<le> 2 ^ 32" by simp
  finally have "take_bit 32 (unat c) = unat c" by (intro take_bit_nat_eq_self) simp
  then show ?thesis by (simp add: unsigned_ucast_eq)
qed

lemma drops_remainder_fits:
  "ucast (ucast (snd (int2fl (ucast (c :: u16)) DROPS_M DROPS_E)) :: u16)
     = snd (int2fl (ucast c) DROPS_M DROPS_E)"
proof -
  have "snd (int2fl (ucast c) DROPS_M DROPS_E) \<le> ucast c"
    by (rule int2fl_decode(2) [OF params_ok_drops])
  then have "unat (snd (int2fl (ucast c) DROPS_M DROPS_E)) \<le> unat (ucast c :: u32)"
    by (simp add: word_le_nat_alt)
  also have "\<dots> = unat c" by (rule unat_ucast_16_32)
  also have "\<dots> < 2 ^ 16" by (rule unat_u16_less)
  finally show ?thesis by (rule ucast_down_up)
qed

lemma int2fl_drops_100: "int2fl 100 DROPS_M DROPS_E = (22, 4)"
  by code_simp

lemma int2fl_drops_4: "int2fl 4 DROPS_M DROPS_E = (4, 0)"
  by (simp add: int2fl_def shl32_def DROPS_M_def DROPS_E_def)

lemma htons_ip_neq_ipv6: "htons ETH_P_IPV6 \<noteq> htons ETH_P_IP"
  by (simp add: htons_def ETH_P_IP_def ETH_P_IPV6_def)

lemma id_pack:
  fixes q :: u16 and d :: u32
  assumes q': "unat q < 2048" and d': "unat d < 32"
  defines "new_id \<equiv> (ucast ((ucast q :: u32) OR push_bit 11 (ucast (ucast d :: u16))) :: u16)"
  shows "new_id = q OR push_bit 11 (ucast d)"
    and "new_id AND 0x7ff = q"
    and "ucast (drop_bit 11 new_id) = d"
proof -
  have q: "unat q < 2 ^ 11" and d: "unat d < 2 ^ 5" using q' d' by simp_all
  have bq: "bit q n \<Longrightarrow> n < 11" for n using bit_small [OF q] .
  have bd: "bit d n \<Longrightarrow> n < 5" for n using bit_small [OF d] .
  show "new_id = q OR push_bit 11 (ucast d)"
    unfolding new_id_def
    by (rule bit_word_eqI) (auto simp: bit_simps dest: bq bd)
  have "take_bit 11 new_id = q"
    unfolding new_id_def
    by (rule bit_word_eqI) (auto simp: bit_simps dest: bq bd)
  moreover have "(0x7ff :: u16) = mask 11" by (simp add: mask_eq_exp_minus_1)
  ultimately show "new_id AND 0x7ff = q" by (simp only: take_bit_eq_mask)
  show "ucast (drop_bit 11 new_id) = d"
    unfolding new_id_def
    by (rule bit_word_eqI) (auto simp: bit_simps dest: bq bd)
qed

lemma drops_codeword_fits: "unat (fst (int2fl v DROPS_M DROPS_E)) < 32"
  using int2fl_decode(3) [OF params_ok_drops, of v] by (simp add: DROPS_M_def DROPS_E_def)

lemma qdelay_codeword_fits: "unat (fst (int2fl v QDELAY_M QDELAY_E)) < 2048"
  using int2fl_decode(3) [OF params_ok_qdelay, of v] by (simp add: QDELAY_M_def QDELAY_E_def)

lemma write_drops_fits: "unat (fst (testbed_write_drops t b)) < 32"
  by (simp add: testbed_write_drops_def split_beta drops_codeword_fits)

lemma ipv4_new_id:
  "ntohs (ip_id (ip_hdr (fst (testbed_add_metrics_ipv4 skb t qdelay)))) =
     ucast ((ucast qdelay :: u32)
       OR push_bit 11 (ucast (ucast (fst (testbed_write_drops t (tos (ip_hdr skb)))) :: u16)))"
  by (simp add: testbed_add_metrics_ipv4_def Let_def split_beta ntohs_htons)

subsection \<open>The Internet checksum\<close>

lemma fold16_mod: "((x::nat) mod 65536 + x div 65536) mod 65535 = x mod 65535"
proof -
  have "x = 65536 * (x div 65536) + x mod 65536" by simp
  then have "x = 65535 * (x div 65536) + (x mod 65536 + x div 65536)" by linarith
  then have "x mod 65535 = (65535 * (x div 65536) + (x mod 65536 + x div 65536)) mod 65535"
    by simp
  also have "\<dots> = (x mod 65536 + x div 65536) mod 65535" by (rule mod_mult_self4)
  finally show ?thesis by simp
qed

lemma fold16_pos: "(0 < (x::nat) mod 65536 + x div 65536) = (0 < x)"
proof -
  have "x = 65536 * (x div 65536) + x mod 65536" by simp
  then show ?thesis by linarith
qed

lemma fold16_le: "(x::nat) \<le> 131070 \<Longrightarrow> x mod 65536 + x div 65536 \<le> 65535"
proof (cases "x < 65536")
  case True
  then show ?thesis by simp
next
  case False
  assume "x \<le> 131070"
  with False have "x div 65536 = 1" by simp
  moreover have "x mod 65536 = x - 65536" using False \<open>x \<le> 131070\<close>
    by (simp add: le_mod_geq)
  ultimately show ?thesis using \<open>x \<le> 131070\<close> by simp
qed

lemma and_ffff: "(s::u32) AND 0xffff = take_bit 16 s"
proof -
  have "(0xffff :: u32) = mask 16" by (simp add: mask_eq_exp_minus_1)
  then show ?thesis by (simp only: take_bit_eq_mask)
qed

lemma unat_add32: "unat (a::u32) + unat b < 2 ^ 32 \<Longrightarrow> unat (a + b) = unat a + unat b"
  by (simp add: unat_add_lem [THEN iffD1])

lemma unat_ucast_32_16: "unat (x::u32) < 2 ^ 16 \<Longrightarrow> unat (ucast x :: u16) = unat x"
  by (simp add: unsigned_ucast_eq take_bit_nat_eq_self)

lemma unat_fold32:
  fixes s :: u32
  shows "unat ((s AND 0xffff) + drop_bit 16 s) = unat s mod 65536 + unat s div 65536"
proof -
  have a: "unat (s AND 0xffff) = unat s mod 65536"
    unfolding and_ffff using unat_take_bit_mod [of 16 s] by simp
  have b: "unat (drop_bit 16 s) = unat s div 65536"
    using unat_drop_bit_div [of 16 s] by simp
  have "unat s < 2 ^ 32" using unsigned_less [of s, where 'a = nat] by simp
  then have "unat s div 65536 < 65536" by simp
  moreover have "unat s mod 65536 < 65536" by simp
  ultimately have "unat (s AND 0xffff) + unat (drop_bit 16 s) < 2 ^ 32"
    unfolding a b by simp
  then show ?thesis unfolding a [symmetric] b [symmetric] by (rule unat_add32)
qed

lemma csum_fold_zero_iff:
  "(csum_fold s = 0) = (unat s mod 65535 = 0 \<and> 0 < unat s)"
proof -
  define sum1 where "sum1 = (s AND 0xffff) + drop_bit 16 s"
  define sum2 where "sum2 = (sum1 AND 0xffff) + drop_bit 16 sum1"
  define s1 where "s1 = unat s mod 65536 + unat s div 65536"
  define s2 where "s2 = s1 mod 65536 + s1 div 65536"
  have u1: "unat sum1 = s1" unfolding sum1_def s1_def by (rule unat_fold32)
  have u2: "unat sum2 = s2" unfolding sum2_def s2_def u1 [symmetric] by (rule unat_fold32)
  have "unat s < 2 ^ 32" using unsigned_less [of s, where 'a = nat] by simp
  then have "unat s div 65536 < 65536" by simp
  moreover have "unat s mod 65536 < 65536" by simp
  ultimately have "s1 \<le> 131070" unfolding s1_def by linarith
  then have s2le: "s2 \<le> 65535" unfolding s2_def by (rule fold16_le)
  have m: "s2 mod 65535 = unat s mod 65535"
    unfolding s2_def s1_def by (simp only: fold16_mod)
  have pos: "(0 < s2) = (0 < unat s)"
    unfolding s2_def s1_def by (simp only: fold16_pos)
  have nat_eq: "(s2 = 65535) = (unat s mod 65535 = 0 \<and> 0 < unat s)"
  proof
    assume "s2 = 65535"
    with m pos show "unat s mod 65535 = 0 \<and> 0 < unat s" by simp
  next
    assume a: "unat s mod 65535 = 0 \<and> 0 < unat s"
    show "s2 = 65535"
    proof (rule ccontr)
      assume "s2 \<noteq> 65535"
      with s2le have "s2 < 65535" by simp
      then have "s2 mod 65535 = s2" by simp
      with m pos a show False by simp
    qed
  qed
  have "csum_fold s = ucast (NOT sum2)"
    by (simp add: csum_fold_def sum1_def sum2_def Let_def)
  also have "\<dots> = NOT (ucast sum2 :: u16)"
    by (rule bit_word_eqI) (auto simp: bit_simps)
  finally have "(csum_fold s = 0) = (NOT (ucast sum2 :: u16) = 0)" by simp
  also have "\<dots> = ((ucast sum2 :: u16) = - 1)"
    by (metis bit.compl_zero bit.double_compl)
  also have "\<dots> = (unat (ucast sum2 :: u16) = unat (- 1 :: u16))"
    by (simp only: word_unat_eq_iff)
  also have "unat (ucast sum2 :: u16) = s2"
    using s2le u2 by (simp add: unat_ucast_32_16)
  also have "unat (- 1 :: u16) = 65535"
    by (simp add: unsigned_minus_1_eq_mask mask_eq_exp_minus_1)
  finally show ?thesis unfolding nat_eq .
qed


lemma check_update:
  fixes c i n :: u16
  defines "check0 \<equiv> (ucast c :: u32) + ucast i"
  defines "check1 \<equiv> (if drop_bit 16 (check0 + 1) \<noteq> 0 then (check0 + 1) AND 0xffff else check0)"
  defines "check2 \<equiv> check1 - ucast n"
  defines "check3 \<equiv> check2 + drop_bit 16 check2"
  shows "(unat (ucast check3 :: u16) + unat n) mod 65535 = (unat c + unat i) mod 65535"
proof -
  have c: "unat c < 65536" and i: "unat i < 65536" and n: "unat n < 65536"
    using unat_u16_less [of c] unat_u16_less [of i] unat_u16_less [of n] by simp_all
  have u0: "unat check0 = unat c + unat i"
    unfolding check0_def using c i by (simp add: unat_add32 unat_ucast_16_32)
  have u01: "unat (check0 + 1) = unat c + unat i + 1"
    using c i u0 unat_add32 [of check0 1] by simp
  have d: "(drop_bit 16 (check0 + 1) \<noteq> 0) = (65535 \<le> unat c + unat i)"
  proof -
    have "(drop_bit 16 (check0 + 1) \<noteq> 0) = (unat (drop_bit 16 (check0 + 1)) \<noteq> 0)"
      by (simp add: unat_eq_0)
    also have "unat (drop_bit 16 (check0 + 1)) = (unat c + unat i + 1) div 65536"
      using unat_drop_bit_div [of 16 "check0 + 1"] u01 by simp
    also have "((unat c + unat i + 1) div 65536 \<noteq> 0) = (65535 \<le> unat c + unat i)"
      by (auto simp: div_eq_0_iff)
    finally show ?thesis .
  qed
  obtain k where k: "unat check1 = k" and k16: "k \<le> 65535"
    and km: "k mod 65535 = (unat c + unat i) mod 65535"
  proof (cases "65535 \<le> unat c + unat i")
    case True
    then have "check1 = (check0 + 1) AND 0xffff" unfolding check1_def d by simp
    then have "unat check1 = (unat c + unat i + 1) mod 65536"
      unfolding and_ffff using unat_take_bit_mod [of 16 "check0 + 1"] u01 by simp
    also have "\<dots> = unat c + unat i + 1 - 65536"
      using True c i by (simp add: le_mod_geq)
    finally have u: "unat check1 = unat c + unat i - 65535" by simp
    have "unat c + unat i = unat c + unat i - 65535 + 1 * 65535" using True by simp
    then have "(unat c + unat i) mod 65535 = (unat c + unat i - 65535 + 1 * 65535) mod 65535"
      by simp
    also have "\<dots> = (unat c + unat i - 65535) mod 65535" by (rule mod_mult_self1)
    finally show ?thesis using u c i by (intro that [of "unat c + unat i - 65535"]) simp_all
  next
    case False
    then have "check1 = check0" unfolding check1_def d by simp
    with u0 False show ?thesis by (intro that [of "unat c + unat i"]) simp_all
  qed
  have un: "unat (ucast n :: u32) = unat n" by (rule unat_ucast_16_32)
  have "(unat (ucast check3 :: u16) + unat n) mod 65535 = k mod 65535"
  proof (cases "unat n \<le> k")
    case True
    then have "ucast n \<le> check1" by (simp add: word_le_nat_alt un k)
    then have "unat check2 = unat check1 - unat (ucast n :: u32)"
      unfolding check2_def by (rule unat_sub)
    then have u2: "unat check2 = k - unat n" unfolding un k .
    then have "unat (drop_bit 16 check2) = 0"
      using unat_drop_bit_div [of 16 check2] k16 by simp
    then have "drop_bit 16 check2 = 0" by (simp add: unat_eq_0)
    then have "check3 = check2" unfolding check3_def by simp
    then have "unat (ucast check3 :: u16) = k - unat n"
      using u2 k16 by (simp add: unat_ucast_32_16)
    then show ?thesis using True by simp
  next
    case False
    define e where "e = unat n - k"
    have e: "1 \<le> e" "e \<le> 65535" "k + 65535 = unat n + (65535 - e)"
      using False n by (simp_all add: e_def)
    have "unat check2 = unat check1 + 2 ^ 32 - unat (ucast n :: u32)"
      unfolding check2_def using False by (simp add: unat_sub_if_size un k word_size)
    then have u2: "unat check2 = 4294967296 - e"
      unfolding un k e_def using False n by simp
    have "(4294967296 - e) div 65536 = 65535" using e(1,2) by simp
    then have ud: "unat (drop_bit 16 check2) = 65535"
      using unat_drop_bit_div [of 16 check2] u2 by simp
    have "unat check3 = (unat check2 + unat (drop_bit 16 check2)) mod 2 ^ 32"
      unfolding check3_def by (simp add: unat_word_ariths)
    also have "\<dots> = (65535 - e + 1 * 4294967296) mod 4294967296"
      unfolding u2 ud using e(1,2) by simp
    also have "\<dots> = (65535 - e) mod 4294967296" by (rule mod_mult_self1)
    finally have u3: "unat check3 = 65535 - e" by simp
    then have "unat (ucast check3 :: u16) = 65535 - e" by (simp add: unat_ucast_32_16)
    then have "unat (ucast check3 :: u16) + unat n = k + 1 * 65535" using e(3) by simp
    then have "(unat (ucast check3 :: u16) + unat n) mod 65535 = (k + 1 * 65535) mod 65535"
      by simp
    also have "\<dots> = k mod 65535" by (rule mod_mult_self1)
    finally show ?thesis .
  qed
  then show ?thesis unfolding km .
qed


lemma csum_partial_eq: "csum_partial ws acc = acc + word_of_nat (sum_list (map unat ws))"
  by (induction ws arbitrary: acc) (simp_all add: algebra_simps)

lemma be16_words_be16_bytes: "be16_words (be16_bytes x @ bs) = ntohs x # be16_words bs"
  by (cases x) simp

lemma iphdr_words:
  "be16_words (iphdr_bytes h) =
     ntohs (Be16 (push_bit 4 (ucast (version h)) OR ucast (ihl h)) (tos h))
     # ntohs (tot_len h) # ntohs (ip_id h) # ntohs (frag_off h)
     # ntohs (Be16 (ttl h) (protocol h)) # ntohs (check h)
     # be16_words (be32_bytes (saddr h) @ be32_bytes (daddr h) @ options h)"
  by (simp add: iphdr_bytes_def be16_words_be16_bytes)

lemma sum_words_le: "sum_list (map unat (ws :: u16 list)) \<le> 65535 * length ws"
proof (induction ws)
  case Nil
  then show ?case by simp
next
  case (Cons w ws)
  have "unat w \<le> 65535" using unat_u16_less [of w] by simp
  with Cons show ?case by simp
qed

lemma length_be16_words: "length (be16_words bs) \<le> length bs"
  by (induction bs rule: be16_words.induct) simp_all

lemma length_be32_bytes: "length (be32_bytes x) = 4"
  by (cases x) simp

lemma first_word_pos:
  assumes "version h = 4"
  shows "0 < unat (ntohs (Be16 (push_bit 4 (ucast (version h)) OR ucast (ihl h)) (tos h)))"
proof -
  have "bit (4 :: 4 word) 2" by simp
  then have "bit (ntohs (Be16 (push_bit 4 (ucast (version h)) OR ucast (ihl h)) (tos h))) 14"
    using assms by (simp add: bit_simps)
  then have "ntohs (Be16 (push_bit 4 (ucast (version h)) OR ucast (ihl h)) (tos h)) \<noteq> 0"
    by auto
  then show ?thesis by (simp add: unat_gt_0)
qed

lemma ipv4_hdr_after:
  "ip_hdr (fst (testbed_add_metrics_ipv4 skb t q)) =
     (let iph = ip_hdr skb;
          check0 = (ucast (ntohs (check iph)) :: u32) + ucast (ntohs (ip_id iph));
          check1 = (if drop_bit 16 (check0 + 1) \<noteq> 0 then (check0 + 1) AND 0xffff else check0);
          new_id = (ucast ((ucast q :: u32)
            OR push_bit 11 (ucast (ucast (fst (testbed_write_drops t (tos iph))) :: u16))) :: u16);
          check2 = check1 - ucast new_id;
          check3 = check2 + drop_bit 16 check2
      in iph\<lparr>ip_id := htons new_id, check := htons (ucast check3)\<rparr>)"
  by (simp add: testbed_add_metrics_ipv4_def Let_def split_beta)

lemma sample_iphdr_wf: "iphdr_wf sample_iphdr"
  by (simp add: iphdr_wf_def sample_iphdr_def)

lemma sample_iphdr_valid: "ip_fast_csum sample_iphdr = 0"
  by (simp add: ip_fast_csum_def iphdr_bytes_def sample_iphdr_def csum_fold_def)

lemma int2fl_decode_nat:
  assumes ok: "codec_params_ok m e"
  shows "unat (fl2int (fst (int2fl v m e)) m e) + unat (snd (int2fl v m e)) = unat v"
proof -
  have le: "snd (int2fl v m e) \<le> v" by (rule int2fl_decode(2) [OF ok])
  then have "unat (v - snd (int2fl v m e)) = unat v - unat (snd (int2fl v m e))"
    by (rule unat_sub)
  moreover have "unat (snd (int2fl v m e)) \<le> unat v" using le by (simp add: word_le_nat_alt)
  ultimately show ?thesis unfolding int2fl_decode(1) [OF ok] by simp
qed

section \<open>The claims of the specification\<close>

subsection \<open>The codec\<close>

text \<open>
  Claim C8. A value below \<open>2 ^ (m_b + 1)\<close> is its own codeword, with remainder 0, for
  every parameter pair on which the 32-bit arithmetic of \<^verbatim>\<open>int2fl\<close> is defined. The
  witness is the drops codec (2,3): the values 0 and 7 are their own codewords, and the
  bound of the direct range, \<^verbatim>\<open>1 << (m_b + 1)\<close>, is 8.
\<close>

theorem int2fl_direct_range:
  assumes "codec_params_ok m_b e_b" and "unat v < 2 ^ (unat m_b + 1)"
  shows "int2fl v m_b e_b = (v, 0)"
proof -
  note p = params_okD [OF assms(1)]
  have "unat m_b + 1 < 32" using p(1) by simp
  from less_2p_iff [OF this, of v] assms(2) have "v < 2 ^ (unat m_b + 1)" by blast
  then have "v < shl32 1 (m_b + 1)" by (simp only: shl32_1 p(5))
  then show ?thesis by (simp add: int2fl_def)
qed

theorem int2fl_direct_range_witness:
  "codec_params_ok DROPS_M DROPS_E \<and> unat (7 :: u32) < 2 ^ (unat DROPS_M + 1)
   \<and> unat (0 :: u32) < 2 ^ (unat DROPS_M + 1)
   \<and> int2fl 0 DROPS_M DROPS_E = (0, 0) \<and> int2fl 7 DROPS_M DROPS_E = (7, 0)
   \<and> shl32 1 (DROPS_M + 1) = 8"
proof -
  have h0: "unat (0 :: u32) < 2 ^ (unat DROPS_M + 1)" by (simp add: DROPS_M_def)
  have h7: "unat (7 :: u32) < 2 ^ (unat DROPS_M + 1)" by (simp add: DROPS_M_def)
  have b: "shl32 1 (DROPS_M + 1) = 8" by (simp add: shl32_def DROPS_M_def)
  show ?thesis
    using int2fl_direct_range [OF params_ok_drops h0] int2fl_direct_range [OF params_ok_drops h7]
      params_ok_drops h0 h7 b by simp
qed

text \<open>
  Claim C2. Within the representable range of a parameter pair, that is up to
  \<^verbatim>\<open>max_fl\<close>, decoding the codeword and adding the remainder gives the value back,
  in 32-bit arithmetic and as numbers (the sum does not wrap). The witness takes the two
  pairs of the header, (2,3) and (7,4).
\<close>

theorem int2fl_roundtrip_in_range:
  assumes "codec_params_ok m_b e_b" and "v \<le> max_fl m_b e_b"
  shows "fl2int (fst (int2fl v m_b e_b)) m_b e_b + snd (int2fl v m_b e_b) = v
    \<and> unat (fl2int (fst (int2fl v m_b e_b)) m_b e_b) + unat (snd (int2fl v m_b e_b)) = unat v"
  using int2fl_decode(1) [OF assms(1), of v] int2fl_decode_nat [OF assms(1), of v] by simp

theorem int2fl_roundtrip_in_range_witness:
  "codec_params_ok DROPS_M DROPS_E \<and> (100 :: u32) \<le> max_fl DROPS_M DROPS_E
   \<and> int2fl 100 DROPS_M DROPS_E = (22, 4) \<and> fl2int 22 DROPS_M DROPS_E = 96
   \<and> fl2int (fst (int2fl 100 DROPS_M DROPS_E)) DROPS_M DROPS_E
        + snd (int2fl 100 DROPS_M DROPS_E) = 100
   \<and> codec_params_ok QDELAY_M QDELAY_E \<and> (5000 :: u32) \<le> max_fl QDELAY_M QDELAY_E
   \<and> fl2int (fst (int2fl 5000 QDELAY_M QDELAY_E)) QDELAY_M QDELAY_E
        + snd (int2fl 5000 QDELAY_M QDELAY_E) = 5000"
proof -
  have d: "(100 :: u32) \<le> max_fl DROPS_M DROPS_E" by (simp add: max_fl_drops)
  have q: "(5000 :: u32) \<le> max_fl QDELAY_M QDELAY_E" by (simp add: max_fl_qdelay)
  have f: "fl2int 22 DROPS_M DROPS_E = 96"
    by (simp add: fl2int_def shl32_def shr32_def DROPS_M_def DROPS_E_def)
  show ?thesis
    using int2fl_roundtrip_in_range [OF params_ok_drops d]
      int2fl_roundtrip_in_range [OF params_ok_qdelay q] params_ok_drops params_ok_qdelay d q f
    by (simp add: int2fl_drops_100)
qed

text \<open>
  Claim C3. The encoder saturates: for the drops codec (2,3) a value of at least
  \<^verbatim>\<open>max_fl\<close> = 448 gets the largest codeword 31 and the remainder \<open>v - 448\<close>, and
  for any parameter pair a value of at least \<^verbatim>\<open>max_fl\<close> gets the codeword
  \<^verbatim>\<open>(1 << (m_b + e_b)) - 1\<close> and the remainder \<open>w - max_fl\<close>.
\<close>

theorem int2fl_saturates:
  "(448 \<le> v \<longrightarrow> int2fl v DROPS_M DROPS_E = (31, v - 448))
   \<and> (codec_params_ok m_b e_b \<and> max_fl m_b e_b \<le> w \<longrightarrow>
        int2fl w m_b e_b = (shl32 1 (m_b + e_b) - 1, w - max_fl m_b e_b))"
  using int2fl_sat [OF params_ok_drops, of v] int2fl_sat [of m_b e_b w]
  by (simp add: max_fl_drops max_cw_drops)

theorem int2fl_saturates_witness:
  "(448 :: u32) \<le> 70000 \<and> int2fl 70000 DROPS_M DROPS_E = (31, 69552)
   \<and> codec_params_ok QDELAY_M QDELAY_E \<and> max_fl QDELAY_M QDELAY_E \<le> 5000000
   \<and> int2fl 5000000 QDELAY_M QDELAY_E = (2047, 822080)"
  using int2fl_saturates [of 70000 QDELAY_M QDELAY_E 5000000] params_ok_qdelay
  by (simp add: max_fl_qdelay max_cw_qdelay)

text \<open>
  Claim C6. For the two parameter pairs of the header and every 32-bit value, in the
  representable range or beyond it, the decoded codeword never exceeds the value.
\<close>

theorem fl2int_int2fl_le:
  "fl2int (fst (int2fl v DROPS_M DROPS_E)) DROPS_M DROPS_E \<le> v
   \<and> fl2int (fst (int2fl v QDELAY_M QDELAY_E)) QDELAY_M QDELAY_E \<le> v"
proof -
  have "k \<le> v \<Longrightarrow> v - k \<le> v" for k v :: u32 by (rule word_sub_le)
  then show ?thesis
    using int2fl_decode(1,2) [OF params_ok_drops, of v]
      int2fl_decode(1,2) [OF params_ok_qdelay, of v] by simp
qed

text \<open>
  Claim C10. For the two parameter pairs of the header the reconstruction is exact for
  every 32-bit value, in 32-bit arithmetic and as numbers, also where the encoder
  saturates: there the remainder is what the value has above \<^verbatim>\<open>max_fl\<close>, and the
  all-ones codeword decodes to \<^verbatim>\<open>max_fl\<close>.
\<close>

theorem int2fl_roundtrip_all_u32:
  "fl2int (fst (int2fl v DROPS_M DROPS_E)) DROPS_M DROPS_E + snd (int2fl v DROPS_M DROPS_E) = v
   \<and> unat (fl2int (fst (int2fl v DROPS_M DROPS_E)) DROPS_M DROPS_E)
        + unat (snd (int2fl v DROPS_M DROPS_E)) = unat v
   \<and> fl2int (fst (int2fl v QDELAY_M QDELAY_E)) QDELAY_M QDELAY_E
        + snd (int2fl v QDELAY_M QDELAY_E) = v
   \<and> unat (fl2int (fst (int2fl v QDELAY_M QDELAY_E)) QDELAY_M QDELAY_E)
        + unat (snd (int2fl v QDELAY_M QDELAY_E)) = unat v
   \<and> (max_fl DROPS_M DROPS_E \<le> v \<longrightarrow>
        int2fl v DROPS_M DROPS_E = (shl32 1 (DROPS_M + DROPS_E) - 1, v - max_fl DROPS_M DROPS_E))
   \<and> (max_fl QDELAY_M QDELAY_E \<le> v \<longrightarrow>
        int2fl v QDELAY_M QDELAY_E
          = (shl32 1 (QDELAY_M + QDELAY_E) - 1, v - max_fl QDELAY_M QDELAY_E))
   \<and> fl2int (shl32 1 (DROPS_M + DROPS_E) - 1) DROPS_M DROPS_E = max_fl DROPS_M DROPS_E
   \<and> fl2int (shl32 1 (QDELAY_M + QDELAY_E) - 1) QDELAY_M QDELAY_E = max_fl QDELAY_M QDELAY_E"
proof -
  have "fl2int (shl32 1 (DROPS_M + DROPS_E) - 1) DROPS_M DROPS_E = max_fl DROPS_M DROPS_E"
    by (simp add: fl2int_def max_fl_def shl32_def shr32_def DROPS_M_def DROPS_E_def)
  moreover have
    "fl2int (shl32 1 (QDELAY_M + QDELAY_E) - 1) QDELAY_M QDELAY_E = max_fl QDELAY_M QDELAY_E"
    by (simp add: fl2int_def max_fl_def shl32_def shr32_def QDELAY_M_def QDELAY_E_def)
  ultimately show ?thesis
    using int2fl_decode(1) [OF params_ok_drops, of v] int2fl_decode(1) [OF params_ok_qdelay, of v]
      int2fl_decode_nat [OF params_ok_drops, of v] int2fl_decode_nat [OF params_ok_qdelay, of v]
      int2fl_sat [OF params_ok_drops, of v] int2fl_sat [OF params_ok_qdelay, of v]
    by simp
qed

theorem int2fl_roundtrip_all_u32_witness:
  "max_fl DROPS_M DROPS_E \<le> 70000 \<and> int2fl 70000 DROPS_M DROPS_E = (31, 69552)
   \<and> fl2int 31 DROPS_M DROPS_E = 448 \<and> (448 :: u32) + 69552 = 70000
   \<and> max_fl QDELAY_M QDELAY_E \<le> 5000000
   \<and> int2fl 5000000 QDELAY_M QDELAY_E = (2047, 822080)
   \<and> fl2int 2047 QDELAY_M QDELAY_E = 4177920 \<and> (4177920 :: u32) + 822080 = 5000000"
  using int2fl_roundtrip_all_u32 [of 70000] int2fl_roundtrip_all_u32 [of 5000000]
  by (simp add: max_fl_drops max_fl_qdelay max_cw_drops max_cw_qdelay)

subsection \<open>The drop accumulator\<close>

text \<open>
  Claim C9. Recording a drop increments exactly one counter: \<open>drops_nonecn\<close> for the
  codepoint Not-ECT, \<open>drops_ecn\<close> for any other, and leaves the other counter as it is.
  The increment is modulo \<open>2 ^ 16\<close>: a counter at 65535 goes to 0.
\<close>

theorem testbed_inc_drop_count_wraps:
  "(ect = INET_ECN_NOT_ECT \<longrightarrow>
      unat (drops_nonecn (testbed_inc_drop_count t ect)) = (unat (drops_nonecn t) + 1) mod 2 ^ 16
      \<and> drops_ecn (testbed_inc_drop_count t ect) = drops_ecn t)
   \<and> (ect \<noteq> INET_ECN_NOT_ECT \<longrightarrow>
      unat (drops_ecn (testbed_inc_drop_count t ect)) = (unat (drops_ecn t) + 1) mod 2 ^ 16
      \<and> drops_nonecn (testbed_inc_drop_count t ect) = drops_nonecn t)"
  by (simp add: testbed_inc_drop_count_def unat_word_ariths)

theorem testbed_inc_drop_count_wraps_witness:
  "drops_nonecn (testbed_inc_drop_count \<lparr>drops_ecn = 7, drops_nonecn = 65535\<rparr> INET_ECN_NOT_ECT) = 0
   \<and> drops_ecn (testbed_inc_drop_count \<lparr>drops_ecn = 7, drops_nonecn = 65535\<rparr> INET_ECN_NOT_ECT) = 7
   \<and> (2 :: u8) \<noteq> INET_ECN_NOT_ECT
   \<and> drops_ecn (testbed_inc_drop_count \<lparr>drops_ecn = 65535, drops_nonecn = 7\<rparr> 2) = 0
   \<and> drops_nonecn (testbed_inc_drop_count \<lparr>drops_ecn = 65535, drops_nonecn = 7\<rparr> 2) = 7"
  using testbed_inc_drop_count_wraps [of INET_ECN_NOT_ECT "\<lparr>drops_ecn = 7, drops_nonecn = 65535\<rparr>"]
    testbed_inc_drop_count_wraps [of 2 "\<lparr>drops_ecn = 65535, drops_nonecn = 7\<rparr>"]
  by (simp add: INET_ECN_NOT_ECT_def unat_eq_0)

text \<open>
  Claim C4. \<^verbatim>\<open>testbed_write_drops\<close> returns the (2,3) codeword of the selected counter
  and replaces that counter by the remainder of the encoding, which always fits the
  16-bit counter; the other counter is untouched. It is not idempotent: from a counter
  of 100 the first call returns the codeword 22 and leaves 4, and the second call
  returns the codeword 4, computed from that residual.
\<close>

theorem testbed_write_drops_consumes:
  "(tos_byte AND INET_ECN_MASK \<noteq> 0 \<longrightarrow>
      fst (testbed_write_drops t tos_byte) = fst (int2fl (ucast (drops_ecn t)) DROPS_M DROPS_E)
      \<and> ucast (drops_ecn (snd (testbed_write_drops t tos_byte)))
           = snd (int2fl (ucast (drops_ecn t)) DROPS_M DROPS_E)
      \<and> drops_nonecn (snd (testbed_write_drops t tos_byte)) = drops_nonecn t
      \<and> (drops_ecn t = 100 \<longrightarrow>
           fst (testbed_write_drops t tos_byte) = 22
           \<and> drops_ecn (snd (testbed_write_drops t tos_byte)) = 4
           \<and> fst (testbed_write_drops (snd (testbed_write_drops t tos_byte)) tos_byte) = 4
           \<and> fst (testbed_write_drops (snd (testbed_write_drops t tos_byte)) tos_byte)
               \<noteq> fst (testbed_write_drops t tos_byte)))
   \<and> (tos_byte AND INET_ECN_MASK = 0 \<longrightarrow>
      fst (testbed_write_drops t tos_byte) = fst (int2fl (ucast (drops_nonecn t)) DROPS_M DROPS_E)
      \<and> ucast (drops_nonecn (snd (testbed_write_drops t tos_byte)))
           = snd (int2fl (ucast (drops_nonecn t)) DROPS_M DROPS_E)
      \<and> drops_ecn (snd (testbed_write_drops t tos_byte)) = drops_ecn t
      \<and> (drops_nonecn t = 100 \<longrightarrow>
           fst (testbed_write_drops t tos_byte) = 22
           \<and> drops_nonecn (snd (testbed_write_drops t tos_byte)) = 4
           \<and> fst (testbed_write_drops (snd (testbed_write_drops t tos_byte)) tos_byte) = 4
           \<and> fst (testbed_write_drops (snd (testbed_write_drops t tos_byte)) tos_byte)
               \<noteq> fst (testbed_write_drops t tos_byte)))"
  by (simp add: testbed_write_drops_def drops_remainder_fits split_beta
      int2fl_drops_100 int2fl_drops_4)

theorem testbed_write_drops_consumes_witness:
  "(1 :: u8) AND INET_ECN_MASK \<noteq> 0 \<and> (4 :: u8) AND INET_ECN_MASK = 0
   \<and> testbed_write_drops \<lparr>drops_ecn = 100, drops_nonecn = 9\<rparr> 1
       = (22, \<lparr>drops_ecn = 4, drops_nonecn = 9\<rparr>)
   \<and> testbed_write_drops \<lparr>drops_ecn = 4, drops_nonecn = 9\<rparr> 1
       = (4, \<lparr>drops_ecn = 0, drops_nonecn = 9\<rparr>)
   \<and> testbed_write_drops \<lparr>drops_ecn = 9, drops_nonecn = 100\<rparr> 4
       = (22, \<lparr>drops_ecn = 9, drops_nonecn = 4\<rparr>)"
  using testbed_write_drops_consumes [of 1 "\<lparr>drops_ecn = 100, drops_nonecn = 9\<rparr>"]
    testbed_write_drops_consumes [of 4 "\<lparr>drops_ecn = 9, drops_nonecn = 100\<rparr>"]
  by (simp add: INET_ECN_MASK_def testbed_write_drops_def int2fl_drops_100 int2fl_drops_4)

subsection \<open>The packet\<close>

text \<open>
  Claim C7. \<^verbatim>\<open>testbed_add_metrics\<close> returns the packet and the accumulator as they
  were given when the packet is IPv6, when it is neither IPv4 nor IPv6, and when it is
  IPv4 but its header cannot be pulled or cannot be made writable. The function is
  total, so it returns normally in each case.
\<close>

theorem testbed_add_metrics_noop:
  "(skb_protocol skb = htons ETH_P_IPV6 \<longrightarrow> testbed_add_metrics skb t q = (skb, t))
   \<and> (skb_protocol skb \<noteq> htons ETH_P_IP \<and> skb_protocol skb \<noteq> htons ETH_P_IPV6 \<longrightarrow>
        testbed_add_metrics skb t q = (skb, t))
   \<and> (skb_protocol skb = htons ETH_P_IP
        \<and> (\<not> pskb_may_pull skb (skb_network_offset skb + sizeof_iphdr)
           \<or> skb_try_make_writable skb (skb_network_offset skb + sizeof_iphdr) \<noteq> 0) \<longrightarrow>
        testbed_add_metrics skb t q = (skb, t))"
  by (auto simp: testbed_add_metrics_def Let_def split_beta htons_ip_neq_ipv6)


theorem testbed_add_metrics_noop_witness:
  "sample_skb ETH_P_IPV6 True 0 \<noteq> sample_skb ETH_P_IP True 0
   \<and> skb_protocol (sample_skb ETH_P_IPV6 True 0) = htons ETH_P_IPV6
   \<and> testbed_add_metrics (sample_skb ETH_P_IPV6 True 0) \<lparr>drops_ecn = 100, drops_nonecn = 9\<rparr> 5000
       = (sample_skb ETH_P_IPV6 True 0, \<lparr>drops_ecn = 100, drops_nonecn = 9\<rparr>)
   \<and> skb_protocol (sample_skb 0x0806 True 0) \<noteq> htons ETH_P_IP
   \<and> skb_protocol (sample_skb 0x0806 True 0) \<noteq> htons ETH_P_IPV6
   \<and> testbed_add_metrics (sample_skb 0x0806 True 0) \<lparr>drops_ecn = 100, drops_nonecn = 9\<rparr> 5000
       = (sample_skb 0x0806 True 0, \<lparr>drops_ecn = 100, drops_nonecn = 9\<rparr>)
   \<and> skb_protocol (sample_skb ETH_P_IP False 0) = htons ETH_P_IP
   \<and> \<not> pskb_may_pull (sample_skb ETH_P_IP False 0)
         (skb_network_offset (sample_skb ETH_P_IP False 0) + sizeof_iphdr)
   \<and> testbed_add_metrics (sample_skb ETH_P_IP False 0) \<lparr>drops_ecn = 100, drops_nonecn = 9\<rparr> 5000
       = (sample_skb ETH_P_IP False 0, \<lparr>drops_ecn = 100, drops_nonecn = 9\<rparr>)
   \<and> skb_try_make_writable (sample_skb ETH_P_IP True (- 12))
         (skb_network_offset (sample_skb ETH_P_IP True (- 12)) + sizeof_iphdr) \<noteq> 0
   \<and> testbed_add_metrics (sample_skb ETH_P_IP True (- 12)) \<lparr>drops_ecn = 100, drops_nonecn = 9\<rparr> 5000
       = (sample_skb ETH_P_IP True (- 12), \<lparr>drops_ecn = 100, drops_nonecn = 9\<rparr>)"
  using
    testbed_add_metrics_noop [of "sample_skb ETH_P_IPV6 True 0" "\<lparr>drops_ecn = 100, drops_nonecn = 9\<rparr>" 5000]
    testbed_add_metrics_noop [of "sample_skb 0x0806 True 0" "\<lparr>drops_ecn = 100, drops_nonecn = 9\<rparr>" 5000]
    testbed_add_metrics_noop [of "sample_skb ETH_P_IP False 0" "\<lparr>drops_ecn = 100, drops_nonecn = 9\<rparr>" 5000]
    testbed_add_metrics_noop [of "sample_skb ETH_P_IP True (- 12)" "\<lparr>drops_ecn = 100, drops_nonecn = 9\<rparr>" 5000]
  by (simp add: sample_skb_def htons_def ETH_P_IP_def ETH_P_IPV6_def pskb_may_pull_def
      skb_try_make_writable_def)

text \<open>
  Claim C5. For a delay codeword of 11 bits and every accumulator, the identification
  field that \<^verbatim>\<open>testbed_add_metrics_ipv4\<close> writes is the delay codeword in its low 11
  bits and the drops codeword in its high 5 bits, and both are read back exactly by
  masking and shifting. The (7,4) codeword of every value fits 11 bits, and the (2,3)
  codeword of every value fits 5 bits.
\<close>

theorem embed_id_packs_codewords:
  assumes "unat qdelay < 2 ^ 11"
  shows "(let drops = fst (testbed_write_drops t (tos (ip_hdr skb)));
              new_id = ntohs (ip_id (ip_hdr (fst (testbed_add_metrics_ipv4 skb t qdelay))))
          in new_id = qdelay OR push_bit 11 (ucast drops)
             \<and> new_id AND 0x7ff = qdelay
             \<and> ucast (drop_bit 11 new_id) = drops)
         \<and> unat (fst (int2fl v QDELAY_M QDELAY_E)) < 2 ^ 11
         \<and> unat (fst (int2fl w DROPS_M DROPS_E)) < 2 ^ 5"
proof -
  have q: "unat qdelay < 2048" using assms by simp
  note pk = id_pack [OF q write_drops_fits, of t "tos (ip_hdr skb)"]
  show ?thesis
    unfolding Let_def ipv4_new_id
    using pk drops_codeword_fits [of w] qdelay_codeword_fits [of v] by simp
qed

theorem embed_id_packs_codewords_witness:
  "unat (796 :: u16) < 2 ^ 11
   \<and> fst (testbed_write_drops \<lparr>drops_ecn = 100, drops_nonecn = 9\<rparr>
        (tos (ip_hdr (sample_skb ETH_P_IP True 0)))) = 22
   \<and> ntohs (ip_id (ip_hdr (fst (testbed_add_metrics_ipv4 (sample_skb ETH_P_IP True 0)
        \<lparr>drops_ecn = 100, drops_nonecn = 9\<rparr> 796)))) = 45852
   \<and> (45852 :: u16) AND 0x7ff = 796 \<and> drop_bit 11 (45852 :: u16) = 22"
proof -
  have h: "unat (796 :: u16) < 2 ^ 11" by simp
  have d: "fst (testbed_write_drops \<lparr>drops_ecn = 100, drops_nonecn = 9\<rparr>
        (tos (ip_hdr (sample_skb ETH_P_IP True 0)))) = 22"
    by (simp add: sample_skb_def sample_iphdr_def testbed_write_drops_def INET_ECN_MASK_def
        int2fl_drops_100)
  show ?thesis
    using embed_id_packs_codewords [OF h, of "\<lparr>drops_ecn = 100, drops_nonecn = 9\<rparr>"
        "sample_skb ETH_P_IP True 0" 0 0] d
    by (simp add: Let_def)
qed

text \<open>
  Claim C1. If the IPv4 header of the packet is well-formed and its checksum is valid,
  then after \<^verbatim>\<open>testbed_add_metrics_ipv4\<close> has written the identification field and
  adjusted the checksum field, the checksum computed from scratch over the whole header
  is zero again. This holds for every accumulator and every 16-bit delay argument, the
  11-bit codewords among them.
\<close>

theorem embed_keeps_checksum_valid:
  assumes wf: "iphdr_wf (ip_hdr skb)" and valid: "ip_fast_csum (ip_hdr skb) = 0"
  shows "ip_fast_csum (ip_hdr (fst (testbed_add_metrics_ipv4 skb t q))) = 0"
proof -
  define h where "h = ip_hdr skb"
  define n where "n = (ucast ((ucast q :: u32)
      OR push_bit 11 (ucast (ucast (fst (testbed_write_drops t (tos h))) :: u16))) :: u16)"
  define c where "c = ntohs (check h)"
  define i where "i = ntohs (ip_id h)"
  define check0 where "check0 = (ucast c :: u32) + ucast i"
  define check1 where
    "check1 = (if drop_bit 16 (check0 + 1) \<noteq> 0 then (check0 + 1) AND 0xffff else check0)"
  define check2 where "check2 = check1 - ucast n"
  define check3 where "check3 = check2 + drop_bit 16 check2"
  define c' where "c' = (ucast check3 :: u16)"
  define h' where "h' = h\<lparr>ip_id := htons n, check := htons c'\<rparr>"
  have after: "ip_hdr (fst (testbed_add_metrics_ipv4 skb t q)) = h'"
    unfolding ipv4_hdr_after Let_def
    unfolding h'_def c'_def check3_def check2_def check1_def check0_def c_def i_def n_def h_def ..
  have upd: "(unat c' + unat n) mod 65535 = (unat c + unat i) mod 65535"
    unfolding c'_def check3_def check2_def check1_def check0_def by (rule check_update)
  define w0 where
    "w0 = unat (ntohs (Be16 (push_bit 4 (ucast (version h)) OR ucast (ihl h)) (tos h)))"
  define rest where "rest = be16_words (be32_bytes (saddr h) @ be32_bytes (daddr h) @ options h)"
  define A where "A = w0 + unat (ntohs (tot_len h)) + unat (ntohs (frag_off h))
      + unat (ntohs (Be16 (ttl h) (protocol h))) + sum_list (map unat rest)"
  have S: "sum_list (map unat (be16_words (iphdr_bytes h))) = A + (unat c + unat i)"
    unfolding iphdr_words by (simp add: A_def w0_def rest_def c_def i_def)
  have S': "sum_list (map unat (be16_words (iphdr_bytes h'))) = A + (unat c' + unat n)"
    unfolding iphdr_words by (simp add: A_def w0_def rest_def h'_def ntohs_htons)
  have "unat (ihl h) < 16" using unsigned_less [of "ihl h", where 'a = nat] by simp
  then have "length (options h) \<le> 40" using wf by (simp add: iphdr_wf_def h_def)
  then have "length (be32_bytes (saddr h) @ be32_bytes (daddr h) @ options h) \<le> 48"
    by (simp add: length_be32_bytes)
  with length_be16_words [of "be32_bytes (saddr h) @ be32_bytes (daddr h) @ options h"]
  have "length rest \<le> 48" unfolding rest_def by (rule le_trans)
  with sum_words_le [of rest] have rb: "sum_list (map unat rest) \<le> 65535 * 48" by simp
  have wb: "w0 < 65536" "unat (ntohs (tot_len h)) < 65536" "unat (ntohs (frag_off h)) < 65536"
    "unat (ntohs (Be16 (ttl h) (protocol h))) < 65536"
    "unat c < 65536" "unat i < 65536" "unat c' < 65536" "unat n < 65536"
    using unat_u16_less by (simp_all add: w0_def)
  have Ab: "A < 2 ^ 32 - 131072" using rb wb(1-4) unfolding A_def by simp
  have Apos: "0 < A" using first_word_pos [of h] wf by (simp add: A_def w0_def iphdr_wf_def h_def)
  have fc: "ip_fast_csum g = 0 \<longleftrightarrow>
      sum_list (map unat (be16_words (iphdr_bytes g))) mod 65535 = 0
      \<and> 0 < sum_list (map unat (be16_words (iphdr_bytes g)))"
    if "sum_list (map unat (be16_words (iphdr_bytes g))) < 2 ^ 32" for g
  proof -
    have "unat (word_of_nat (sum_list (map unat (be16_words (iphdr_bytes g)))) :: u32)
        = sum_list (map unat (be16_words (iphdr_bytes g)))"
      using that by (rule unat_of_nat32)
    then show ?thesis
      unfolding ip_fast_csum_def csum_partial_eq by (simp add: csum_fold_zero_iff)
  qed
  have "A + (unat c + unat i) < 2 ^ 32" using Ab wb by simp
  with valid have v: "(A + (unat c + unat i)) mod 65535 = 0"
    using fc [of h] unfolding S h_def [symmetric] by simp
  have "(A + (unat c' + unat n)) mod 65535 = (A + (unat c' + unat n) mod 65535) mod 65535"
    by (simp only: mod_add_right_eq)
  also have "\<dots> = (A + (unat c + unat i)) mod 65535"
    unfolding upd by (simp only: mod_add_right_eq)
  finally have "(A + (unat c' + unat n)) mod 65535 = 0" using v by simp
  moreover have "0 < A + (unat c' + unat n)" using Apos by simp
  moreover have "A + (unat c' + unat n) < 2 ^ 32" using Ab wb by simp
  ultimately have "ip_fast_csum h' = 0" using fc [of h'] unfolding S' by simp
  then show ?thesis unfolding after .
qed


theorem embed_keeps_checksum_valid_witness:
  "iphdr_wf (ip_hdr (sample_skb ETH_P_IP True 0))
   \<and> ip_fast_csum (ip_hdr (sample_skb ETH_P_IP True 0)) = 0
   \<and> check (ip_hdr (fst (testbed_add_metrics_ipv4 (sample_skb ETH_P_IP True 0)
        \<lparr>drops_ecn = 100, drops_nonecn = 9\<rparr> 796))) = Be16 115 176
   \<and> ip_id (ip_hdr (fst (testbed_add_metrics_ipv4 (sample_skb ETH_P_IP True 0)
        \<lparr>drops_ecn = 100, drops_nonecn = 9\<rparr> 796))) = Be16 179 28
   \<and> ip_fast_csum (ip_hdr (fst (testbed_add_metrics_ipv4 (sample_skb ETH_P_IP True 0)
        \<lparr>drops_ecn = 100, drops_nonecn = 9\<rparr> 796))) = 0"
proof -
  have w: "iphdr_wf (ip_hdr (sample_skb ETH_P_IP True 0))"
    by (simp add: sample_skb_def sample_iphdr_wf)
  have v: "ip_fast_csum (ip_hdr (sample_skb ETH_P_IP True 0)) = 0"
    by (simp add: sample_skb_def sample_iphdr_valid)
  have d: "testbed_write_drops \<lparr>drops_ecn = 100, drops_nonecn = 9\<rparr> 1
      = (22, \<lparr>drops_ecn = 4, drops_nonecn = 9\<rparr>)"
    by (simp add: testbed_write_drops_def INET_ECN_MASK_def int2fl_drops_100)
  have "ip_hdr (fst (testbed_add_metrics_ipv4 (sample_skb ETH_P_IP True 0)
        \<lparr>drops_ecn = 100, drops_nonecn = 9\<rparr> 796))
      = sample_iphdr\<lparr>ip_id := Be16 179 28, check := Be16 115 176\<rparr>"
    by (simp add: testbed_add_metrics_ipv4_def sample_skb_def sample_iphdr_def d htons_def)
  then show ?thesis
    using embed_keeps_checksum_valid [OF w v, of "\<lparr>drops_ecn = 100, drops_nonecn = 9\<rparr>" 796] w v
    by simp
qed

end
